theory Spec2Isabelle
  imports Main "HOL-Library.Word" "HOL-Library.Multiset"
begin

unbundle bit_operations_syntax

section \<open>Bytes and the SHA-256 digest\<close>

text \<open>
  A Go \<open>[]byte\<close> is a list of 8-bit words; a Go \<open>string\<close> is a list of
  \<open>char\<close> (bytes as well, the suit names being UTF-8 text of three bytes per character).
  \<open>crypto/sha256\<close> belongs to the Go standard library, not to the repository; it is
  written out below as FIPS 180-4 defines it, so that the embedding of
  \<open>shuffleDeck\<close> and of the session derivation computes on concrete input.
\<close>

type_synonym byte = "8 word"
type_synonym uint32 = "32 word"
type_synonym uint64 = "64 word"

definition sha256_K :: "uint32 list" where
  "sha256_K =
    [0x428A2F98, 0x71374491, 0xB5C0FBCF, 0xE9B5DBA5,
     0x3956C25B, 0x59F111F1, 0x923F82A4, 0xAB1C5ED5,
     0xD807AA98, 0x12835B01, 0x243185BE, 0x550C7DC3,
     0x72BE5D74, 0x80DEB1FE, 0x9BDC06A7, 0xC19BF174,
     0xE49B69C1, 0xEFBE4786, 0x0FC19DC6, 0x240CA1CC,
     0x2DE92C6F, 0x4A7484AA, 0x5CB0A9DC, 0x76F988DA,
     0x983E5152, 0xA831C66D, 0xB00327C8, 0xBF597FC7,
     0xC6E00BF3, 0xD5A79147, 0x06CA6351, 0x14292967,
     0x27B70A85, 0x2E1B2138, 0x4D2C6DFC, 0x53380D13,
     0x650A7354, 0x766A0ABB, 0x81C2C92E, 0x92722C85,
     0xA2BFE8A1, 0xA81A664B, 0xC24B8B70, 0xC76C51A3,
     0xD192E819, 0xD6990624, 0xF40E3585, 0x106AA070,
     0x19A4C116, 0x1E376C08, 0x2748774C, 0x34B0BCB5,
     0x391C0CB3, 0x4ED8AA4A, 0x5B9CCA4F, 0x682E6FF3,
     0x748F82EE, 0x78A5636F, 0x84C87814, 0x8CC70208,
     0x90BEFFFA, 0xA4506CEB, 0xBEF9A3F7, 0xC67178F2]"

definition sha256_init :: "uint32 list" where
  "sha256_init =
    [0x6A09E667, 0xBB67AE85, 0x3C6EF372, 0xA54FF53A,
     0x510E527F, 0x9B05688C, 0x1F83D9AB, 0x5BE0CD19]"

definition be_word32 :: "byte list \<Rightarrow> uint32" where
  "be_word32 bs = foldl (\<lambda>acc b. push_bit 8 acc OR ucast b) 0 bs"

definition be_bytes32 :: "uint32 \<Rightarrow> byte list" where
  "be_bytes32 w = [ucast (drop_bit 24 w), ucast (drop_bit 16 w), ucast (drop_bit 8 w), ucast w]"

definition be_bytes64 :: "uint64 \<Rightarrow> byte list" where
  "be_bytes64 w =
    [ucast (drop_bit 56 w), ucast (drop_bit 48 w), ucast (drop_bit 40 w), ucast (drop_bit 32 w),
     ucast (drop_bit 24 w), ucast (drop_bit 16 w), ucast (drop_bit 8 w), ucast w]"

definition sha256_pad :: "byte list \<Rightarrow> byte list" where
  "sha256_pad m =
     m @ [0x80] @ replicate ((119 - length m mod 64) mod 64) 0
       @ be_bytes64 (word_of_nat (8 * length m))"

definition small_sigma0 :: "uint32 \<Rightarrow> uint32" where
  "small_sigma0 x = word_rotr 7 x XOR word_rotr 18 x XOR drop_bit 3 x"

definition small_sigma1 :: "uint32 \<Rightarrow> uint32" where
  "small_sigma1 x = word_rotr 17 x XOR word_rotr 19 x XOR drop_bit 10 x"

definition big_sigma0 :: "uint32 \<Rightarrow> uint32" where
  "big_sigma0 x = word_rotr 2 x XOR word_rotr 13 x XOR word_rotr 22 x"

definition big_sigma1 :: "uint32 \<Rightarrow> uint32" where
  "big_sigma1 x = word_rotr 6 x XOR word_rotr 11 x XOR word_rotr 25 x"

definition sha_ch :: "uint32 \<Rightarrow> uint32 \<Rightarrow> uint32 \<Rightarrow> uint32" where
  "sha_ch x y z = (x AND y) XOR (NOT x AND z)"

definition sha_maj :: "uint32 \<Rightarrow> uint32 \<Rightarrow> uint32 \<Rightarrow> uint32" where
  "sha_maj x y z = (x AND y) XOR (x AND z) XOR (y AND z)"

text \<open>The message schedule: sixteen words of the block, extended to sixty-four.\<close>

fun sha256_schedule :: "nat \<Rightarrow> uint32 list \<Rightarrow> uint32 list" where
  "sha256_schedule 0 ws = ws"
| "sha256_schedule (Suc n) ws =
     (let t = length ws
      in sha256_schedule n
           (ws @ [small_sigma1 (ws ! (t - 2)) + ws ! (t - 7)
                  + small_sigma0 (ws ! (t - 15)) + ws ! (t - 16)]))"

fun block_words :: "nat \<Rightarrow> byte list \<Rightarrow> uint32 list" where
  "block_words 0 bs = []"
| "block_words (Suc n) bs = be_word32 (take 4 bs) # block_words n (drop 4 bs)"

type_synonym sha_regs =
  "uint32 \<times> uint32 \<times> uint32 \<times> uint32 \<times> uint32 \<times> uint32 \<times> uint32 \<times> uint32"

fun sha256_round :: "sha_regs \<Rightarrow> uint32 \<times> uint32 \<Rightarrow> sha_regs" where
  "sha256_round (a, b, c, d, e, f, g, h) (k, w) =
     (let t1 = h + big_sigma1 e + sha_ch e f g + k + w;
          t2 = big_sigma0 a + sha_maj a b c
      in (t1 + t2, a, b, c, d + t1, e, f, g))"

fun regs_of :: "uint32 list \<Rightarrow> sha_regs" where
  "regs_of hs = (hs ! 0, hs ! 1, hs ! 2, hs ! 3, hs ! 4, hs ! 5, hs ! 6, hs ! 7)"

fun list_of_regs :: "sha_regs \<Rightarrow> uint32 list" where
  "list_of_regs (a, b, c, d, e, f, g, h) = [a, b, c, d, e, f, g, h]"

definition sha256_compress :: "uint32 list \<Rightarrow> byte list \<Rightarrow> uint32 list" where
  "sha256_compress hs block =
     (let ws = sha256_schedule 48 (block_words 16 block);
          out = foldl sha256_round (regs_of hs) (zip sha256_K ws)
      in map2 (+) hs (list_of_regs out))"

fun sha256_blocks :: "nat \<Rightarrow> uint32 list \<Rightarrow> byte list \<Rightarrow> uint32 list" where
  "sha256_blocks 0 hs bs = hs"
| "sha256_blocks (Suc n) hs bs = sha256_blocks n (sha256_compress hs (take 64 bs)) (drop 64 bs)"

definition sha256 :: "byte list \<Rightarrow> byte list" where
  "sha256 m =
     (let p = sha256_pad m
      in concat (map be_bytes32 (sha256_blocks (length p div 64) sha256_init p)))"

text \<open>
  The \<open>hash.Hash\<close> value returned by \<open>sha256.New()\<close>: \<open>Write\<close> appends to
  the bytes absorbed so far, \<open>Sum(b)\<close> appends the digest of what was written to
  \<open>b\<close> and returns the resulting slice.
\<close>

record hasher =
  written :: "byte list"

definition sha256_New :: hasher where
  "sha256_New = \<lparr>written = []\<rparr>"

definition hasher_Write :: "hasher \<Rightarrow> byte list \<Rightarrow> hasher" where
  "hasher_Write h p = h\<lparr>written := written h @ p\<rparr>"

definition hasher_Sum :: "hasher \<Rightarrow> byte list \<Rightarrow> byte list" where
  "hasher_Sum h b = b @ sha256 (written h)"

section \<open>Cards and the canonical deck\<close>

record Card =
  Suit :: string
  Value :: string

text \<open>
  The four suit names of the source are Chinese words of two characters; each is spelled
  here by its six UTF-8 bytes, which is what Go's \<open>len\<close>, \<open>strings.HasPrefix\<close>
  and string slicing work on.
\<close>

definition suit_spade :: string where
  "suit_spade = [CHR 0xE9, CHR 0xBB, CHR 0x91, CHR 0xE6, CHR 0xA1, CHR 0x83]"

definition suit_heart :: string where
  "suit_heart = [CHR 0xE7, CHR 0xB4, CHR 0x85, CHR 0xE5, CHR 0xBF, CHR 0x83]"

definition suit_diamond :: string where
  "suit_diamond = [CHR 0xE6, CHR 0x96, CHR 0xB9, CHR 0xE5, CHR 0xA1, CHR 0x8A]"

definition suit_club :: string where
  "suit_club = [CHR 0xE6, CHR 0xA2, CHR 0x85, CHR 0xE8, CHR 0x8A, CHR 0xB1]"

definition suits :: "string list" where
  "suits = [suit_spade, suit_heart, suit_diamond, suit_club]"

definition rank_values :: "string list" where
  "rank_values =
     [''A'', ''2'', ''3'', ''4'', ''5''] @ [''6'', ''7'', ''8'', ''9'', ''10''] @ [''J'', ''Q'', ''K'']"

text \<open>The two nested \<open>range\<close> loops of \<open>initializeDeck\<close>, each appending to the deck.\<close>

definition initializeDeck :: "Card list" where
  "initializeDeck =
     foldl (\<lambda>deck suit. foldl (\<lambda>deck v. deck @ [\<lparr>Suit = suit, Value = v\<rparr>]) deck rank_values)
       [] suits"

section \<open>The Fisher-Yates shuffle\<close>

text \<open>
  Go panics where a slice expression or an index leaves its range; both are results of
  the model. The slice expression \<open>randomness[pos:pos+8]\<close> is checked against the
  length of the slice (Go checks the capacity, which is never smaller). Where it does not
  panic it has eight bytes, which is all \<open>binary.BigEndian.Uint64\<close> asks of its argument.
\<close>

datatype panic = SliceBoundsOutOfRange | IndexOutOfRange

definition max_go :: "int \<Rightarrow> int \<Rightarrow> int" where
  "max_go a b = (if a > b then a else b)"

definition slice_bytes :: "byte list \<Rightarrow> int \<Rightarrow> int \<Rightarrow> panic + byte list" where
  "slice_bytes r lo hi =
     (if 0 \<le> lo \<and> lo \<le> hi \<and> hi \<le> int (length r)
      then Inr (take (nat (hi - lo)) (drop (nat lo) r))
      else Inl SliceBoundsOutOfRange)"

definition BigEndian_Uint64 :: "byte list \<Rightarrow> uint64" where
  "BigEndian_Uint64 b =
     ucast (b ! 7) OR push_bit 8 (ucast (b ! 6)) OR push_bit 16 (ucast (b ! 5))
       OR push_bit 24 (ucast (b ! 4)) OR push_bit 32 (ucast (b ! 3))
       OR push_bit 40 (ucast (b ! 2)) OR push_bit 48 (ucast (b ! 1))
       OR push_bit 56 (ucast (b ! 0))"

text \<open>
  The loop \<open>for i := len(shuffled) - 1; i > 0; i--\<close>, with \<open>i\<close> a Go \<open>int\<close>.
  Both operands of \<open>i % max(1, len(randomness)-8)\<close> are positive inside the loop, where
  Go's truncating remainder and \<open>mod\<close> agree.
\<close>

function shuffle_loop :: "int \<Rightarrow> byte list \<Rightarrow> Card list \<Rightarrow> panic + Card list" where
  "shuffle_loop i randomness shuffled =
     (if i > 0 then
        (let pos = i mod max_go 1 (int (length randomness) - 8)
         in case slice_bytes randomness pos (pos + 8) of
              Inl e \<Rightarrow> Inl e
            | Inr b \<Rightarrow>
                (let j = int (unat (BigEndian_Uint64 b mod word_of_int (i + 1)))
                 in if i < int (length shuffled) \<and> j < int (length shuffled)
                    then shuffle_loop (i - 1) randomness
                           (shuffled[nat i := shuffled ! nat j, nat j := shuffled ! nat i])
                    else Inl IndexOutOfRange))
      else Inr shuffled)"
  by pat_completeness auto
termination
  by (relation "measure (\<lambda>(i, r, s). nat i)") auto

declare shuffle_loop.simps [simp del]

definition shuffleDeck :: "Card list \<Rightarrow> byte list \<Rightarrow> panic + Card list" where
  "shuffleDeck deck randomness =
     (let shuffled = deck;
          randomness' = (if length randomness < 8
                         then hasher_Sum (hasher_Write sha256_New randomness) []
                         else randomness)
      in shuffle_loop (int (length shuffled) - 1) randomness' shuffled)"

subsection \<open>The shuffle on backing arrays\<close>

text \<open>
  Whether \<open>shuffleDeck\<close> leaves its argument alone is a question about the arrays that
  slices point into. The heap is the list of backing arrays allocated so far; a slice names
  an array, an offset and a length. \<open>make\<close> allocates a new array of zero cards at
  the end of the heap, \<open>copy\<close> writes the first \<open>min(len(dst), len(src))\<close>
  elements, and the loop swaps in place inside the array that \<open>shuffled\<close> points into.
\<close>

type_synonym heap = "Card list list"

record slice =
  arr :: nat
  off :: nat
  len :: nat

definition read_slice :: "heap \<Rightarrow> slice \<Rightarrow> Card list" where
  "read_slice h sl = take (len sl) (drop (off sl) (h ! arr sl))"

definition valid_slice :: "heap \<Rightarrow> slice \<Rightarrow> bool" where
  "valid_slice h sl = (arr sl < length h \<and> off sl + len sl \<le> length (h ! arr sl))"

definition zero_Card :: Card where
  "zero_Card = \<lparr>Suit = [], Value = []\<rparr>"

definition make_cards :: "heap \<Rightarrow> nat \<Rightarrow> heap \<times> slice" where
  "make_cards h n = (h @ [replicate n zero_Card], \<lparr>arr = length h, off = 0, len = n\<rparr>)"

definition copy_cards :: "heap \<Rightarrow> slice \<Rightarrow> slice \<Rightarrow> heap" where
  "copy_cards h dst src =
     (let n = min (len dst) (len src);
          d = h ! arr dst
      in h[arr dst := take (off dst) d @ take n (read_slice h src) @ drop (off dst + n) d])"

definition slice_get :: "heap \<Rightarrow> slice \<Rightarrow> nat \<Rightarrow> Card" where
  "slice_get h sl i = (h ! arr sl) ! (off sl + i)"

definition slice_set :: "heap \<Rightarrow> slice \<Rightarrow> nat \<Rightarrow> Card \<Rightarrow> heap" where
  "slice_set h sl i c = h[arr sl := (h ! arr sl)[off sl + i := c]]"

function shuffle_loop_heap :: "int \<Rightarrow> byte list \<Rightarrow> heap \<Rightarrow> slice \<Rightarrow> panic + heap" where
  "shuffle_loop_heap i randomness h shuffled =
     (if i > 0 then
        (let pos = i mod max_go 1 (int (length randomness) - 8)
         in case slice_bytes randomness pos (pos + 8) of
              Inl e \<Rightarrow> Inl e
            | Inr b \<Rightarrow>
                (let j = int (unat (BigEndian_Uint64 b mod word_of_int (i + 1)))
                 in if i < int (len shuffled) \<and> j < int (len shuffled)
                    then (let ci = slice_get h shuffled (nat i);
                              cj = slice_get h shuffled (nat j)
                          in shuffle_loop_heap (i - 1) randomness
                               (slice_set (slice_set h shuffled (nat i) cj) shuffled (nat j) ci)
                               shuffled)
                    else Inl IndexOutOfRange))
      else Inr h)"
  by pat_completeness auto
termination
  by (relation "measure (\<lambda>(i, r, h, s). nat i)") auto

declare shuffle_loop_heap.simps [simp del]

definition shuffleDeck_heap :: "heap \<Rightarrow> slice \<Rightarrow> byte list \<Rightarrow> panic + heap \<times> slice" where
  "shuffleDeck_heap h deck randomness =
     (let (h1, shuffled) = make_cards h (len deck);
          h2 = copy_cards h1 shuffled deck;
          randomness' = (if length randomness < 8
                         then hasher_Sum (hasher_Write sha256_New randomness) []
                         else randomness)
      in case shuffle_loop_heap (int (len shuffled) - 1) randomness' h2 shuffled of
           Inl e \<Rightarrow> Inl e
         | Inr h3 \<Rightarrow> Inr (h3, shuffled))"

text \<open>The cards a call hands back, read through the returned slice.\<close>

definition result_cards :: "panic + heap \<times> slice \<Rightarrow> panic + Card list" where
  "result_cards r = (case r of Inl e \<Rightarrow> Inl e | Inr (h, sl) \<Rightarrow> Inr (read_slice h sl))"

section \<open>The card text codec\<close>

datatype card_error =
    InvalidCardString string
  | InvalidSuit string
  | InvalidRank string

definition CardToString :: "Card \<Rightarrow> string" where
  "CardToString c = Suit c @ Value c"

definition HasPrefix :: "string \<Rightarrow> string \<Rightarrow> bool" where
  "HasPrefix s p = (length s \<ge> length p \<and> take (length p) s = p)"

definition validSuits :: "string list" where
  "validSuits = [suit_spade, suit_heart, suit_diamond, suit_club]"

text \<open>
  The loop over \<open>validSuits\<close> that stops at the first prefix found; \<open>suit\<close> and
  \<open>value\<close> stay empty when none is.
\<close>

fun match_suit :: "string \<Rightarrow> string list \<Rightarrow> string \<times> string" where
  "match_suit s [] = ([], [])"
| "match_suit s (validSuit # rest) =
     (if HasPrefix s validSuit then (validSuit, drop (length validSuit) s)
      else match_suit s rest)"

definition validValues :: "string \<Rightarrow> bool" where
  "validValues v =
     (case map_of [(''A'', True), (''2'', True), (''3'', True), (''4'', True), (''5'', True),
                   (''6'', True), (''7'', True), (''8'', True), (''9'', True), (''10'', True),
                   (''J'', True), (''Q'', True), (''K'', True)] v of
        None \<Rightarrow> False
      | Some b \<Rightarrow> b)"

definition StringToCard :: "string \<Rightarrow> card_error + Card" where
  "StringToCard s =
     (if length s < 3 then Inl (InvalidCardString s)
      else (let (suit, v) = match_suit s validSuits
            in if suit = [] then Inl (InvalidSuit s)
               else if \<not> validValues v then Inl (InvalidRank v)
               else Inr \<lparr>Suit = suit, Value = v\<rparr>))"

section \<open>The beacon manager\<close>

text \<open>
  A \<open>client.Result\<close> is read through \<open>GetRound\<close> and \<open>GetRandomness\<close> only.
  The drand client is outside the repository: what \<open>dm.client.Get(ctx, round)\<close>
  answers is a parameter of every operation that calls it (round \<open>0\<close> asks for the
  latest beacon), so nothing is assumed about the network. Each method is one step on the
  manager; the steps of different goroutines interleave at the granularity of methods.
\<close>

record Result =
  Round :: uint64
  Randomness :: "byte list"

type_synonym source = "uint64 \<Rightarrow> string + Result"

datatype client_state = NoClient | ClientOpen | ClientClosed

record DrandManager =
  client :: client_state
  latestBeacon :: "Result option"
  beaconCache :: "uint64 \<rightharpoonup> Result"
  isRunning :: bool

datatype error =
    ErrFetchLatest string
  | ErrNoBeaconYet
  | ErrFetchRound uint64 string
  | ErrInitManager string
  | ErrLatestRandomness error
  | ErrRoundRandomness uint64 error
  | Panicked panic

definition maxCacheSize :: nat where
  "maxCacheSize = 100"

definition newDrandManager :: DrandManager where
  "newDrandManager =
     \<lparr>client = ClientOpen, latestBeacon = None, beaconCache = Map.empty, isRunning = False\<rparr>"

text \<open>
  The eviction of \<open>fetchLatestBeacon\<close>: the keys are collected, sorted in ascending
  order, and the first \<open>len(cache) - maxCacheSize\<close> of them are deleted.
\<close>

definition evict :: "(uint64 \<rightharpoonup> Result) \<Rightarrow> (uint64 \<rightharpoonup> Result)" where
  "evict cache =
     (if card (dom cache) > maxCacheSize then
        (let rounds = sorted_list_of_set (dom cache);
             deleteCount = card (dom cache) - maxCacheSize
         in foldl (\<lambda>c r. c(r := None)) cache (take deleteCount rounds))
      else cache)"

definition fetchLatestBeacon :: "source \<Rightarrow> DrandManager \<Rightarrow> error option \<times> DrandManager" where
  "fetchLatestBeacon src dm =
     (case src 0 of
        Inl e \<Rightarrow> (Some (ErrFetchLatest e), dm)
      | Inr result \<Rightarrow>
          (if (case latestBeacon dm of None \<Rightarrow> False | Some lb \<Rightarrow> Round lb \<ge> Round result)
           then (None, dm)
           else (None, dm\<lparr>latestBeacon := Some result,
                           beaconCache := evict ((beaconCache dm)(Round result \<mapsto> result))\<rparr>)))"

definition GetLatestRandomness :: "DrandManager \<Rightarrow> error + byte list \<times> uint64" where
  "GetLatestRandomness dm =
     (case latestBeacon dm of
        None \<Rightarrow> Inl ErrNoBeaconYet
      | Some lb \<Rightarrow> Inr (Randomness lb, Round lb))"

definition GetRandomnessByRound ::
  "source \<Rightarrow> DrandManager \<Rightarrow> uint64 \<Rightarrow> (error + byte list) \<times> DrandManager" where
  "GetRandomnessByRound src dm round =
     (case beaconCache dm round of
        Some beacon \<Rightarrow> (Inr (Randomness beacon), dm)
      | None \<Rightarrow>
          (case src round of
             Inl e \<Rightarrow> (Inl (ErrFetchRound round e), dm)
           | Inr result \<Rightarrow>
               (Inr (Randomness result),
                dm\<lparr>beaconCache := (beaconCache dm)(round \<mapsto> result)\<rparr>)))"

text \<open>
  \<open>StartBackgroundFetching\<close> sets \<open>isRunning\<close> and starts the loop goroutine, whose
  ticks are the refreshes. \<open>StopBackgroundFetching\<close> takes \<open>dm.mutex\<close> and, on a
  running manager, sends on the unbuffered \<open>stopChan\<close> before it clears \<open>isRunning\<close>:
  the send returns only when the loop goroutine is at its \<open>select\<close> and receives. A loop
  that is inside a refresh, about to ask for the mutex, never gets there, and the call
  never returns. Which of the two happens is the scheduler's choice, the argument
  \<open>loopReceives\<close>; a call that never returns is \<open>None\<close>. \<open>Close\<close> reaches
  \<open>client.Close()\<close> only after \<open>StopBackgroundFetching\<close> has returned.
\<close>

definition StartBackgroundFetching :: "DrandManager \<Rightarrow> DrandManager" where
  "StartBackgroundFetching dm = (if isRunning dm then dm else dm\<lparr>isRunning := True\<rparr>)"

definition StopBackgroundFetching :: "bool \<Rightarrow> DrandManager \<Rightarrow> DrandManager option" where
  "StopBackgroundFetching loopReceives dm =
     (if \<not> isRunning dm then Some dm
      else if loopReceives then Some (dm\<lparr>isRunning := False\<rparr>)
      else None)"

definition Close :: "bool \<Rightarrow> DrandManager \<Rightarrow> DrandManager option" where
  "Close loopReceives dm =
     (case (if isRunning dm then StopBackgroundFetching loopReceives dm else Some dm) of
        None \<Rightarrow> None
      | Some dm1 \<Rightarrow>
          Some (if client dm1 \<noteq> NoClient then dm1\<lparr>client := ClientClosed\<rparr> else dm1))"

section \<open>The deck service\<close>

definition bytes_of_string :: "string \<Rightarrow> byte list" where
  "bytes_of_string s = map of_char s"

text \<open>
  The derivation written out in both \<open>GetShuffledDeck\<close> and
  \<open>GetShuffledDeckByRound\<close>: a new hasher absorbs the beacon randomness, then the
  bytes of the session identifier, and \<open>hasher.Sum(randomness)\<close> gives the result.
\<close>

definition extendedRandomness :: "byte list \<Rightarrow> string \<Rightarrow> byte list" where
  "extendedRandomness randomness gameSessionID =
     (let hasher0 = sha256_New;
          hasher1 = hasher_Write hasher0 randomness;
          hasher2 = hasher_Write hasher1 (bytes_of_string gameSessionID)
      in hasher_Sum hasher2 randomness)"

definition lift_panic :: "panic + 'a \<Rightarrow> error + 'a" where
  "lift_panic r = (case r of Inl p \<Rightarrow> Inl (Panicked p) | Inr x \<Rightarrow> Inr x)"

text \<open>
  \<open>GetDrandManager()\<close> hands out the process-wide manager together with the error of
  its one initialisation; both are arguments here.
\<close>

definition GetShuffledDeck ::
  "string option \<Rightarrow> DrandManager \<Rightarrow> string \<Rightarrow> error + Card list \<times> uint64" where
  "GetShuffledDeck initErr dm gameSessionID =
     (case initErr of
        Some e \<Rightarrow> Inl (ErrInitManager e)
      | None \<Rightarrow>
          (case GetLatestRandomness dm of
             Inl e \<Rightarrow> Inl (ErrLatestRandomness e)
           | Inr (randomness, round) \<Rightarrow>
               (case lift_panic (shuffleDeck initializeDeck
                                   (extendedRandomness randomness gameSessionID)) of
                  Inl e \<Rightarrow> Inl e
                | Inr shuffledDeck \<Rightarrow> Inr (shuffledDeck, round))))"

definition GetShuffledDeckByRound ::
  "source \<Rightarrow> string option \<Rightarrow> DrandManager \<Rightarrow> uint64 \<Rightarrow> string
     \<Rightarrow> (error + Card list) \<times> DrandManager" where
  "GetShuffledDeckByRound src initErr dm round gameSessionID =
     (case initErr of
        Some e \<Rightarrow> (Inl (ErrInitManager e), dm)
      | None \<Rightarrow>
          (case GetRandomnessByRound src dm round of
             (Inl e, dm') \<Rightarrow> (Inl (ErrRoundRandomness round e), dm')
           | (Inr randomness, dm') \<Rightarrow>
               (lift_panic (shuffleDeck initializeDeck
                              (extendedRandomness randomness gameSessionID)), dm')))"

section \<open>Sequences of operations and the invariants of the claims\<close>

text \<open>
  A run of the background refresh is a list of answers of the network, one for each tick;
  a run of on-demand requests is a list of rounds asked of one network.
\<close>

definition refresh_all :: "source list \<Rightarrow> DrandManager \<Rightarrow> DrandManager" where
  "refresh_all srcs dm = foldl (\<lambda>dm src. snd (fetchLatestBeacon src dm)) dm srcs"

definition fetch_rounds :: "source \<Rightarrow> uint64 list \<Rightarrow> DrandManager \<Rightarrow> DrandManager" where
  "fetch_rounds src rounds dm = foldl (\<lambda>dm r. snd (GetRandomnessByRound src dm r)) dm rounds"

text \<open>
  The invariant the specification states for the cache: \<open>latest\<close>, if present, is the
  record stored in the mapping under its own round, and no key and no record of the mapping
  has a greater round.
\<close>

definition latest_is_max :: "DrandManager \<Rightarrow> bool" where
  "latest_is_max dm =
     (case latestBeacon dm of
        None \<Rightarrow> True
      | Some b \<Rightarrow>
          beaconCache dm (Round b) = Some b
          \<and> (\<forall>k rec. beaconCache dm k = Some rec \<longrightarrow> k \<le> Round b \<and> Round rec \<le> Round b))"

text \<open>
  What holds of the manager after the refreshes \<open>srcs\<close> and nothing else: the cache is
  finite, every record is stored under its own round and is no newer than \<open>latest\<close>,
  \<open>latest\<close> is in the cache and was delivered by one of the refreshes, and no refresh
  delivered a newer record.
\<close>

definition refresh_inv :: "source list \<Rightarrow> DrandManager \<Rightarrow> bool" where
  "refresh_inv srcs dm \<longleftrightarrow>
     finite (dom (beaconCache dm))
     \<and> (\<forall>k rec. beaconCache dm k = Some rec \<longrightarrow>
           Round rec = k \<and> (\<exists>b. latestBeacon dm = Some b \<and> k \<le> Round b))
     \<and> (\<forall>b. latestBeacon dm = Some b \<longrightarrow>
           beaconCache dm (Round b) = Some b \<and> (\<exists>src\<in>set srcs. src 0 = Inr b))
     \<and> (\<forall>src\<in>set srcs. \<forall>res. src 0 = Inr res \<longrightarrow>
           (\<exists>b. latestBeacon dm = Some b \<and> Round res \<le> Round b))"

section \<open>The digest\<close>

lemma length_list_of_regs: "length (list_of_regs r) = 8"
  by (cases r rule: list_of_regs.cases) simp

lemma length_sha256_compress: "length hs = 8 \<Longrightarrow> length (sha256_compress hs block) = 8"
  by (simp add: sha256_compress_def Let_def length_list_of_regs)

lemma length_sha256_blocks: "length hs = 8 \<Longrightarrow> length (sha256_blocks n hs bs) = 8"
  by (induction n arbitrary: hs bs) (simp_all add: length_sha256_compress)

lemma length_concat_be_bytes32: "length (concat (map be_bytes32 ws)) = 4 * length ws"
  by (induction ws) (simp_all add: be_bytes32_def)

lemma length_sha256: "length (sha256 m) = 32"
  by (simp add: sha256_def Let_def length_concat_be_bytes32 length_sha256_blocks sha256_init_def)

lemma length_hasher_Sum: "length (hasher_Sum h b) = length b + 32"
  by (simp add: hasher_Sum_def length_sha256)

lemma length_rehash: "length (hasher_Sum (hasher_Write sha256_New r) []) = 32"
  by (simp add: length_hasher_Sum)

lemma rehash_eq: "hasher_Sum (hasher_Write sha256_New r) [] = sha256 r"
  by (simp add: hasher_Sum_def hasher_Write_def sha256_New_def)

lemma extendedRandomness_eq:
  "extendedRandomness b sid = b @ sha256 (b @ bytes_of_string sid)"
  by (simp add: extendedRandomness_def Let_def hasher_Sum_def hasher_Write_def sha256_New_def)

text \<open>The digest of \<open>abc\<close>, as FIPS 180-4 prints it.\<close>

lemma sha256_abc:
  "sha256 [0x61, 0x62, 0x63] =
     [0xba, 0x78, 0x16, 0xbf, 0x8f, 0x01, 0xcf, 0xea, 0x41, 0x41, 0x40, 0xde, 0x5d, 0xae, 0x22, 0x23,
      0xb0, 0x03, 0x61, 0xa3, 0x96, 0x17, 0x7a, 0x9c, 0xb4, 0x10, 0xff, 0x61, 0xf2, 0x00, 0x15, 0xad]"
  by code_simp

section \<open>The shuffle loop\<close>

lemma uint64_mod_bound:
  fixes w :: uint64
  assumes "0 < k"
  shows "int (unat (w mod word_of_int k)) < k"
proof (cases "(word_of_int k :: uint64) = 0")
  case True
  then have "2 ^ 64 dvd k"
    by (simp add: word_of_int_eq_0_iff)
  with assms have "2 ^ 64 \<le> k"
    by (simp add: zdvd_imp_le)
  moreover have "uint w < 2 ^ 64"
    using uint_bounded [of w] by simp
  ultimately show ?thesis using True by simp
next
  case False
  then have pos: "0 < uint (word_of_int k :: uint64)"
    by (metis unsigned_0 word_less_iff_unsigned unat_gt_0)
  have "uint (w mod word_of_int k) = uint w mod uint (word_of_int k :: uint64)"
    by (simp add: uint_mod)
  also have "\<dots> < uint (word_of_int k :: uint64)"
    using pos by simp
  also have "uint (word_of_int k :: uint64) \<le> k"
    using assms by (simp add: uint_word_of_int zmod_le_nonneg_dividend)
  finally show ?thesis by simp
qed

lemma slice_in_range:
  assumes "8 \<le> length r" "0 \<le> i"
  shows "\<exists>b. slice_bytes r (i mod max_go 1 (int (length r) - 8))
                (i mod max_go 1 (int (length r) - 8) + 8) = Inr b"
proof -
  let ?d = "max_go 1 (int (length r) - 8)"
  have d: "0 < ?d" by (simp add: max_go_def)
  have "0 \<le> i mod ?d" "i mod ?d < ?d"
    using d by simp_all
  moreover have "?d + 8 \<le> int (length r) + 1"
    using assms by (simp add: max_go_def)
  ultimately show ?thesis
    by (simp add: slice_bytes_def)
qed

lemma shuffle_loop_perm:
  assumes "8 \<le> length r" "i < int (length s)"
  shows "\<exists>out. shuffle_loop i r s = Inr out \<and> mset out = mset s \<and> length out = length s"
  using assms
proof (induction i r s rule: shuffle_loop.induct)
  case (1 i r s)
  show ?case
  proof (cases "i > 0")
    case False
    then show ?thesis by (simp add: shuffle_loop.simps)
  next
    case True
    let ?pos = "i mod max_go 1 (int (length r) - 8)"
    obtain b where b: "slice_bytes r ?pos (?pos + 8) = Inr b"
      using slice_in_range [of r i] "1.prems" True by auto
    let ?j = "int (unat (BigEndian_Uint64 b mod word_of_int (i + 1)))"
    have j: "?j < i + 1" using True by (intro uint64_mod_bound) simp
    then have jl: "?j < int (length s)" using "1.prems" by simp
    let ?s' = "s[nat i := s ! nat ?j, nat ?j := s ! nat i]"
    have ni: "nat i < length s"
      using "1.prems" True by simp
    have nj: "nat ?j < length s"
      using jl unfolding nat_int of_nat_less_iff .
    have "\<exists>out. shuffle_loop (i - 1) r ?s' = Inr out \<and> mset out = mset ?s' \<and> length out = length ?s'"
      using "1.IH" [OF True refl b refl] "1.prems" jl by simp
    moreover have "mset ?s' = mset s"
      using mset_swap [OF nj ni] by simp
    moreover have "shuffle_loop i r s = shuffle_loop (i - 1) r ?s'"
      using True b jl "1.prems" by (subst shuffle_loop.simps) (simp add: Let_def)
    ultimately show ?thesis by simp
  qed
qed

lemma shuffleDeck_perm:
  "\<exists>out. shuffleDeck D R = Inr out \<and> mset out = mset D \<and> length out = length D"
proof -
  let ?r = "if length R < 8 then hasher_Sum (hasher_Write sha256_New R) [] else R"
  have "8 \<le> length ?r" by (simp add: length_rehash)
  moreover have "int (length D) - 1 < int (length D)" by simp
  ultimately show ?thesis
    unfolding shuffleDeck_def Let_def by (rule shuffle_loop_perm)
qed

lemma length_initializeDeck: "length initializeDeck = 52"
  by (simp add: initializeDeck_def suits_def rank_values_def)

subsection \<open>The loop on the heap computes the loop on values\<close>

lemma shuffle_loop_unfold:
  assumes "i > 0"
    and "slice_bytes r (i mod max_go 1 (int (length r) - 8))
           (i mod max_go 1 (int (length r) - 8) + 8) = Inr b"
    and "j = int (unat (BigEndian_Uint64 b mod word_of_int (i + 1)))"
  shows "shuffle_loop i r s =
           (if i < int (length s) \<and> j < int (length s)
            then shuffle_loop (i - 1) r (s[nat i := s ! nat j, nat j := s ! nat i])
            else Inl IndexOutOfRange)"
  using assms by (subst shuffle_loop.simps) (simp add: Let_def)

lemma shuffle_loop_heap_unfold:
  assumes "i > 0"
    and "slice_bytes r (i mod max_go 1 (int (length r) - 8))
           (i mod max_go 1 (int (length r) - 8) + 8) = Inr b"
    and "j = int (unat (BigEndian_Uint64 b mod word_of_int (i + 1)))"
  shows "shuffle_loop_heap i r h sl =
           (if i < int (len sl) \<and> j < int (len sl)
            then shuffle_loop_heap (i - 1) r
                   (slice_set (slice_set h sl (nat i) (slice_get h sl (nat j))) sl (nat j)
                      (slice_get h sl (nat i))) sl
            else Inl IndexOutOfRange)"
  using assms by (subst shuffle_loop_heap.simps) (simp add: Let_def)

lemma slice_swap:
  assumes "arr sl < length h" "off sl = 0"
  shows "slice_set (slice_set h sl i (slice_get h sl j)) sl j (slice_get h sl i) =
           h[arr sl := (h ! arr sl)[i := h ! arr sl ! j, j := h ! arr sl ! i]]"
  using assms by (simp add: slice_set_def slice_get_def)

lemma shuffle_loop_heap_refines:
  assumes "arr sl < length h" "off sl = 0" "len sl = length (h ! arr sl)"
  shows "shuffle_loop_heap i r h sl =
           (case shuffle_loop i r (h ! arr sl) of
              Inl e \<Rightarrow> Inl e
            | Inr out \<Rightarrow> Inr (h[arr sl := out]))"
  using assms
proof (induction i r h sl rule: shuffle_loop_heap.induct)
  case (1 i r h sl)
  let ?xs = "h ! arr sl"
  show ?case
  proof (cases "i > 0")
    case False
    then show ?thesis
      by (simp add: shuffle_loop_heap.simps shuffle_loop.simps)
  next
    case True
    let ?pos = "i mod max_go 1 (int (length r) - 8)"
    show ?thesis
    proof (cases "slice_bytes r ?pos (?pos + 8)")
      case (Inl e)
      then show ?thesis using True
        by (subst shuffle_loop_heap.simps, subst shuffle_loop.simps) (simp add: Let_def)
    next
      case (Inr b)
      define j where "j = int (unat (BigEndian_Uint64 b mod word_of_int (i + 1)))"
      note lhs = shuffle_loop_heap_unfold [OF True Inr j_def, of h sl]
      note rhs = shuffle_loop_unfold [OF True Inr j_def, of ?xs]
      show ?thesis
      proof (cases "i < int (len sl) \<and> j < int (len sl)")
        case False
        then have n1: "(i < int (len sl) \<and> j < int (len sl)) = False"
          by simp
        then have n2: "(i < int (length ?xs) \<and> j < int (length ?xs)) = False"
          using "1.prems" by simp
        show ?thesis
          unfolding lhs rhs n1 n2 by simp
      next
        case ok: True
        let ?xs' = "?xs[nat i := ?xs ! nat j, nat j := ?xs ! nat i]"
        let ?h' = "h[arr sl := ?xs']"
        have sw: "slice_set (slice_set h sl (nat i) (slice_get h sl (nat j))) sl (nat j)
                    (slice_get h sl (nat i)) = ?h'"
          using "1.prems" by (simp add: slice_swap)
        have nth': "?h' ! arr sl = ?xs'"
          using "1.prems" by simp
        have "shuffle_loop_heap (i - 1) r ?h' sl =
                (case shuffle_loop (i - 1) r (?h' ! arr sl) of
                   Inl e \<Rightarrow> Inl e
                 | Inr out \<Rightarrow> Inr (?h'[arr sl := out]))"
          using "1.IH" [OF True refl Inr j_def ok refl refl] "1.prems" unfolding sw
          by simp
        then have step: "shuffle_loop_heap (i - 1) r ?h' sl =
                (case shuffle_loop (i - 1) r ?xs' of
                   Inl e \<Rightarrow> Inl e
                 | Inr out \<Rightarrow> Inr (h[arr sl := out]))"
          unfolding nth' by (simp cong: sum.case_cong)
        have y1: "(i < int (len sl) \<and> j < int (len sl)) = True"
          using ok by simp
        then have y2: "(i < int (length ?xs) \<and> j < int (length ?xs)) = True"
          using "1.prems" by simp
        show ?thesis
          unfolding lhs rhs y1 y2 sw step by simp
      qed
    qed
  qed
qed

lemma shuffleDeck_heap_refines:
  assumes "valid_slice h deck"
  shows "shuffleDeck_heap h deck R =
           (case shuffleDeck (read_slice h deck) R of
              Inl e \<Rightarrow> Inl e
            | Inr out \<Rightarrow> Inr (h @ [out], \<lparr>arr = length h, off = 0, len = len deck\<rparr>))"
proof -
  let ?sl = "\<lparr>arr = length h, off = 0, len = len deck\<rparr>"
  let ?h1 = "h @ [replicate (len deck) zero_Card]"
  have rd: "read_slice ?h1 deck = read_slice h deck"
    using assms by (simp add: read_slice_def valid_slice_def nth_append)
  have lr: "length (read_slice h deck) = len deck"
    using assms by (auto simp: read_slice_def valid_slice_def)
  have h2: "copy_cards ?h1 ?sl deck = h @ [read_slice h deck]"
    by (simp add: copy_cards_def Let_def rd lr)
  let ?r = "if length R < 8 then hasher_Sum (hasher_Write sha256_New R) [] else R"
  have "shuffle_loop_heap (int (len deck) - 1) ?r (h @ [read_slice h deck]) ?sl =
          (case shuffle_loop (int (len deck) - 1) ?r ((h @ [read_slice h deck]) ! arr ?sl) of
             Inl e \<Rightarrow> Inl e
           | Inr out \<Rightarrow> Inr ((h @ [read_slice h deck])[arr ?sl := out]))"
    by (rule shuffle_loop_heap_refines) (simp_all add: lr)
  then show ?thesis
    by (simp add: shuffleDeck_heap_def shuffleDeck_def make_cards_def h2 lr Let_def
        split: sum.splits)
qed

section \<open>The deck service\<close>

lemma GetShuffledDeckByRound_hit:
  assumes "fst (GetRandomnessByRound src dm round) = Inr rnd"
  shows "fst (GetShuffledDeckByRound src None dm round sid) =
           lift_panic (shuffleDeck initializeDeck (extendedRandomness rnd sid))"
  using assms by (cases "GetRandomnessByRound src dm round") (simp add: GetShuffledDeckByRound_def)

lemma GetRandomnessByRound_cached:
  assumes "fst (GetRandomnessByRound src dm round) = Inr rnd"
  shows "fst (GetRandomnessByRound src' (snd (GetRandomnessByRound src dm round)) round) = Inr rnd"
  using assms by (auto simp: GetRandomnessByRound_def split: option.splits sum.splits)

lemma snd_GetShuffledDeckByRound:
  "snd (GetShuffledDeckByRound src None dm round sid) = snd (GetRandomnessByRound src dm round)"
  by (cases "GetRandomnessByRound src dm round")
    (simp add: GetShuffledDeckByRound_def split: sum.splits)

section \<open>The card text codec\<close>

lemmas suit_defs = suit_spade_def suit_heart_def suit_diamond_def suit_club_def

lemma validValues_iff: "validValues v \<longleftrightarrow> v \<in> set rank_values"
  by (auto simp: validValues_def rank_values_def split: option.splits if_splits)

lemma length_validSuits: "x \<in> set validSuits \<Longrightarrow> length x = 6"
  by (auto simp: validSuits_def suit_defs)

lemma match_suit_cases:
  assumes "[] \<notin> set vs"
  shows "(match_suit s vs = ([], []) \<and> (\<forall>x\<in>set vs. \<not> HasPrefix s x))
         \<or> (\<exists>a\<in>set vs. HasPrefix s a \<and> match_suit s vs = (a, drop (length a) s))"
  using assms by (induction vs) auto

lemma HasPrefix_unique:
  assumes "HasPrefix s a" "HasPrefix s b" "length a = length b"
  shows "a = b"
  using assms by (auto simp: HasPrefix_def)

lemma HasPrefix_split: "HasPrefix s a \<Longrightarrow> s = a @ drop (length a) s"
  by (metis HasPrefix_def append_take_drop_id)

lemma HasPrefix_append: "HasPrefix (a @ v) a"
  by (simp add: HasPrefix_def)

lemma nil_notin_validSuits: "[] \<notin> set validSuits"
  by (auto simp: validSuits_def suit_defs)

lemma StringToCard_short: "length s < 3 \<Longrightarrow> StringToCard s = Inl (InvalidCardString s)"
  by (simp add: StringToCard_def)

lemma StringToCard_no_suit:
  assumes "3 \<le> length s" "\<forall>x\<in>set validSuits. \<not> HasPrefix s x"
  shows "StringToCard s = Inl (InvalidSuit s)"
proof -
  have "match_suit s validSuits = ([], [])"
    using match_suit_cases [OF nil_notin_validSuits, of s] assms by blast
  then show ?thesis using assms by (simp add: StringToCard_def)
qed

lemma StringToCard_suit:
  assumes "a \<in> set validSuits" "HasPrefix s a"
  shows "StringToCard s =
           (if drop (length a) s \<in> set rank_values
            then Inr \<lparr>Suit = a, Value = drop (length a) s\<rparr>
            else Inl (InvalidRank (drop (length a) s)))"
proof -
  obtain b where b: "b \<in> set validSuits" "HasPrefix s b"
      "match_suit s validSuits = (b, drop (length b) s)"
    using match_suit_cases [OF nil_notin_validSuits, of s] assms by blast
  have "b = a"
    using b assms by (intro HasPrefix_unique [of s]) (simp_all add: length_validSuits)
  moreover have "a \<noteq> []" "3 \<le> length s"
    using assms length_validSuits [OF assms(1)] by (auto simp: HasPrefix_def)
  ultimately show ?thesis
    using b by (simp add: StringToCard_def validValues_iff)
qed

lemma StringToCard_Inr_iff:
  "StringToCard s = Inr c \<longleftrightarrow>
     Suit c \<in> set validSuits \<and> Value c \<in> set rank_values \<and> s = Suit c @ Value c"
proof
  assume r: "StringToCard s = Inr c"
  have len: "\<not> length s < 3"
    using r by (auto simp: StringToCard_short)
  have "\<exists>a\<in>set validSuits. HasPrefix s a"
  proof (rule ccontr)
    assume "\<not> (\<exists>a\<in>set validSuits. HasPrefix s a)"
    then have "StringToCard s = Inl (InvalidSuit s)"
      using len by (intro StringToCard_no_suit) simp_all
    then show False using r by simp
  qed
  then obtain a where a: "a \<in> set validSuits" "HasPrefix s a" by blast
  have c: "drop (length a) s \<in> set rank_values \<and> c = \<lparr>Suit = a, Value = drop (length a) s\<rparr>"
    using r StringToCard_suit [OF a] by (simp split: if_splits)
  have "s = a @ drop (length a) s"
    using a(2) by (rule HasPrefix_split)
  then show "Suit c \<in> set validSuits \<and> Value c \<in> set rank_values \<and> s = Suit c @ Value c"
    using a(1) c by simp
next
  assume r: "Suit c \<in> set validSuits \<and> Value c \<in> set rank_values \<and> s = Suit c @ Value c"
  then have p: "HasPrefix s (Suit c)"
    by (simp add: HasPrefix_append)
  have d: "drop (length (Suit c)) s = Value c"
    using r by simp
  have "StringToCard s = Inr \<lparr>Suit = Suit c, Value = Value c\<rparr>"
    using r StringToCard_suit [OF _ p] d by simp
  then show "StringToCard s = Inr c" by simp
qed

lemma StringToCard_InvalidCardString_iff:
  "(\<exists>x. StringToCard s = Inl (InvalidCardString x)) \<longleftrightarrow> length s < 3"
proof
  assume r: "\<exists>x. StringToCard s = Inl (InvalidCardString x)"
  show "length s < 3"
  proof (rule ccontr)
    assume len: "\<not> length s < 3"
    show False
    proof (cases "\<exists>a\<in>set validSuits. HasPrefix s a")
      case False
      then have "StringToCard s = Inl (InvalidSuit s)"
        using len by (intro StringToCard_no_suit) simp_all
      then show False using r by simp
    next
      case True
      then obtain a where a: "a \<in> set validSuits" "HasPrefix s a" by blast
      show False
        using r StringToCard_suit [OF a] by (simp split: if_splits)
    qed
  qed
next
  assume "length s < 3"
  then show "\<exists>x. StringToCard s = Inl (InvalidCardString x)"
    by (simp add: StringToCard_short)
qed

lemma StringToCard_InvalidSuit_iff:
  "(\<exists>x. StringToCard s = Inl (InvalidSuit x)) \<longleftrightarrow>
     3 \<le> length s \<and> (\<forall>a\<in>set validSuits. \<not> HasPrefix s a)"
proof
  assume r: "\<exists>x. StringToCard s = Inl (InvalidSuit x)"
  have len: "3 \<le> length s"
  proof (rule ccontr)
    assume "\<not> 3 \<le> length s"
    then have "StringToCard s = Inl (InvalidCardString s)"
      by (simp add: StringToCard_short)
    then show False using r by simp
  qed
  have "\<not> HasPrefix s a" if a: "a \<in> set validSuits" for a
  proof
    assume "HasPrefix s a"
    then show False
      using r StringToCard_suit [OF a] by (simp split: if_splits)
  qed
  then show "3 \<le> length s \<and> (\<forall>a\<in>set validSuits. \<not> HasPrefix s a)"
    using len by blast
next
  assume "3 \<le> length s \<and> (\<forall>a\<in>set validSuits. \<not> HasPrefix s a)"
  then have "StringToCard s = Inl (InvalidSuit s)"
    by (intro StringToCard_no_suit) simp_all
  then show "\<exists>x. StringToCard s = Inl (InvalidSuit x)" by simp
qed

lemma StringToCard_InvalidRank_iff:
  "(\<exists>x. StringToCard s = Inl (InvalidRank x)) \<longleftrightarrow>
     (\<exists>a\<in>set validSuits. HasPrefix s a \<and> drop (length a) s \<notin> set rank_values)"
proof
  assume r: "\<exists>x. StringToCard s = Inl (InvalidRank x)"
  have len: "\<not> length s < 3"
    using r by (auto simp: StringToCard_short)
  have "\<exists>a\<in>set validSuits. HasPrefix s a"
  proof (rule ccontr)
    assume "\<not> (\<exists>a\<in>set validSuits. HasPrefix s a)"
    then have "StringToCard s = Inl (InvalidSuit s)"
      using len by (intro StringToCard_no_suit) simp_all
    then show False using r by simp
  qed
  then obtain a where a: "a \<in> set validSuits" "HasPrefix s a" by blast
  have "drop (length a) s \<notin> set rank_values"
    using r StringToCard_suit [OF a] by (simp split: if_splits)
  then show "\<exists>a\<in>set validSuits. HasPrefix s a \<and> drop (length a) s \<notin> set rank_values"
    using a by blast
next
  assume "\<exists>a\<in>set validSuits. HasPrefix s a \<and> drop (length a) s \<notin> set rank_values"
  then obtain a where a: "a \<in> set validSuits" "HasPrefix s a"
    and bad: "drop (length a) s \<notin> set rank_values" by blast
  show "\<exists>x. StringToCard s = Inl (InvalidRank x)"
    using StringToCard_suit [OF a] bad by simp
qed

section \<open>The cache\<close>

lemma foldl_delete:
  "foldl (\<lambda>c r. c(r := None)) cache ks k = (if k \<in> set ks then None else cache k)"
  by (induction ks arbitrary: cache) auto

lemma take_lt_drop:
  assumes "sorted_wrt (<) xs" "x \<in> set (take n xs)" "y \<in> set (drop n xs)"
  shows "x < y"
proof -
  have "sorted_wrt (<) (take n xs @ drop n xs)" using assms(1) by simp
  then show ?thesis using assms(2,3) unfolding sorted_wrt_append by blast
qed

lemma evict_apply:
  "evict cache k =
     (if card (dom cache) > maxCacheSize
         \<and> k \<in> set (take (card (dom cache) - maxCacheSize) (sorted_list_of_set (dom cache)))
      then None else cache k)"
  by (simp add: evict_def Let_def foldl_delete)

lemma evict_Some: "evict cache k = Some v \<Longrightarrow> cache k = Some v"
  by (simp add: evict_apply split: if_splits)

lemma dom_evict_subset: "dom (evict cache) \<subseteq> dom cache"
  by (auto dest: evict_Some)

lemma evict_keeps_max:
  assumes fin: "finite (dom cache)" and m: "cache m = Some v"
    and mx: "\<forall>k\<in>dom cache. k \<le> m"
  shows "evict cache m = Some v"
proof (cases "card (dom cache) > maxCacheSize")
  case False
  then show ?thesis using m by (simp add: evict_apply)
next
  case True
  let ?xs = "sorted_list_of_set (dom cache)"
  let ?n = "card (dom cache) - maxCacheSize"
  have len: "length ?xs = card (dom cache)" by simp
  have set: "set ?xs = dom cache" using fin by simp
  have "?n < length ?xs" using True by (simp add: maxCacheSize_def)
  then have "drop ?n ?xs \<noteq> []" by simp
  then obtain y where y: "y \<in> set (drop ?n ?xs)"
    by (meson last_in_set)
  have "y \<in> dom cache" using in_set_dropD [OF y] set by simp
  then have ym: "y \<le> m" using mx by blast
  have "m \<notin> set (take ?n ?xs)"
  proof
    assume "m \<in> set (take ?n ?xs)"
    then have "m < y"
      using take_lt_drop [OF strict_sorted_list_of_set _ y] by blast
    then show False using ym by simp
  qed
  then show ?thesis using m by (simp add: evict_apply)
qed

text \<open>What one refresh does to the manager.\<close>

lemma fetchLatestBeacon_cases:
  "(snd (fetchLatestBeacon src dm) = dm
      \<and> ((\<exists>e. src 0 = Inl e)
          \<or> (\<exists>res lb. src 0 = Inr res \<and> latestBeacon dm = Some lb \<and> Round res \<le> Round lb)))
   \<or> (\<exists>res. src 0 = Inr res
         \<and> (\<forall>lb. latestBeacon dm = Some lb \<longrightarrow> Round lb < Round res)
         \<and> snd (fetchLatestBeacon src dm)
             = dm\<lparr>latestBeacon := Some res,
                   beaconCache := evict ((beaconCache dm)(Round res \<mapsto> res))\<rparr>)"
  by (cases "src 0"; cases "latestBeacon dm") (auto simp: fetchLatestBeacon_def)

lemma refresh_invI:
  assumes "finite (dom (beaconCache dm))"
    and "\<And>k rec. beaconCache dm k = Some rec \<Longrightarrow>
           Round rec = k \<and> (\<exists>b. latestBeacon dm = Some b \<and> k \<le> Round b)"
    and "\<And>b. latestBeacon dm = Some b \<Longrightarrow>
           beaconCache dm (Round b) = Some b \<and> (\<exists>s\<in>set srcs. s 0 = Inr b)"
    and "\<And>s res. s \<in> set srcs \<Longrightarrow> s 0 = Inr res \<Longrightarrow>
           (\<exists>b. latestBeacon dm = Some b \<and> Round res \<le> Round b)"
  shows "refresh_inv srcs dm"
  unfolding refresh_inv_def
proof (intro conjI allI impI ballI)
  show "finite (dom (beaconCache dm))" by (rule assms(1))
next
  fix k rec assume "beaconCache dm k = Some rec"
  then show "Round rec = k" "\<exists>b. latestBeacon dm = Some b \<and> k \<le> Round b"
    using assms(2) by blast+
next
  fix b assume "latestBeacon dm = Some b"
  then show "beaconCache dm (Round b) = Some b" "\<exists>s\<in>set srcs. s 0 = Inr b"
    using assms(3) by blast+
next
  fix s res assume "s \<in> set srcs" "s 0 = Inr res"
  then show "\<exists>b. latestBeacon dm = Some b \<and> Round res \<le> Round b"
    by (rule assms(4))
qed

lemma refresh_inv_extend:
  assumes inv: "refresh_inv srcs dm"
    and new: "\<And>res. src 0 = Inr res \<Longrightarrow> \<exists>b. latestBeacon dm = Some b \<and> Round res \<le> Round b"
  shows "refresh_inv (srcs @ [src]) dm"
proof (rule refresh_invI)
  show "finite (dom (beaconCache dm))"
    using inv unfolding refresh_inv_def by (rule conjunct1)
next
  fix k rec assume "beaconCache dm k = Some rec"
  then show "Round rec = k \<and> (\<exists>b. latestBeacon dm = Some b \<and> k \<le> Round b)"
    using inv unfolding refresh_inv_def by blast
next
  fix b assume "latestBeacon dm = Some b"
  then have "beaconCache dm (Round b) = Some b \<and> (\<exists>s\<in>set srcs. s 0 = Inr b)"
    using inv unfolding refresh_inv_def by blast
  then show "beaconCache dm (Round b) = Some b \<and> (\<exists>s\<in>set (srcs @ [src]). s 0 = Inr b)"
    by auto
next
  fix s res assume s: "s \<in> set (srcs @ [src])" and r: "s 0 = Inr res"
  show "\<exists>b. latestBeacon dm = Some b \<and> Round res \<le> Round b"
  proof (cases "s = src")
    case True
    then show ?thesis using new r by simp
  next
    case False
    then have "s \<in> set srcs" using s by simp
    then show ?thesis using inv r unfolding refresh_inv_def by blast
  qed
qed

lemma refresh_inv_step:
  assumes inv: "refresh_inv srcs dm"
  shows "refresh_inv (srcs @ [src]) (snd (fetchLatestBeacon src dm))"
proof -
  from inv have fin: "finite (dom (beaconCache dm))"
    unfolding refresh_inv_def by (rule conjunct1)
  from inv have ent: "\<And>k rec. beaconCache dm k = Some rec \<Longrightarrow>
           Round rec = k \<and> (\<exists>b. latestBeacon dm = Some b \<and> k \<le> Round b)"
    unfolding refresh_inv_def by blast
  from inv have seen: "\<And>s res. s \<in> set srcs \<Longrightarrow> s 0 = Inr res \<Longrightarrow>
           (\<exists>b. latestBeacon dm = Some b \<and> Round res \<le> Round b)"
    unfolding refresh_inv_def by blast
  consider
    (fail) e where "src 0 = Inl e" "snd (fetchLatestBeacon src dm) = dm"
  | (stale) res lb where "src 0 = Inr res" "latestBeacon dm = Some lb" "Round res \<le> Round lb"
      "snd (fetchLatestBeacon src dm) = dm"
  | (new) res where "src 0 = Inr res" "\<forall>lb. latestBeacon dm = Some lb \<longrightarrow> Round lb < Round res"
      "snd (fetchLatestBeacon src dm)
         = dm\<lparr>latestBeacon := Some res, beaconCache := evict ((beaconCache dm)(Round res \<mapsto> res))\<rparr>"
    using fetchLatestBeacon_cases [of src dm] by blast
  then show ?thesis
  proof cases
    case fail
    show ?thesis
      unfolding fail(2) using inv by (rule refresh_inv_extend) (simp add: fail(1))
  next
    case stale
    show ?thesis
      unfolding stale(4) using inv by (rule refresh_inv_extend) (use stale in simp)
  next
    case new
    let ?c = "(beaconCache dm)(Round res \<mapsto> res)"
    let ?dm' = "dm\<lparr>latestBeacon := Some res, beaconCache := evict ?c\<rparr>"
    have finc: "finite (dom ?c)" using fin by simp
    have entc: "Round rec = k \<and> k \<le> Round res" if c: "?c k = Some rec" for k rec
    proof (cases "k = Round res")
      case True
      then show ?thesis using c by simp
    next
      case False
      then have "beaconCache dm k = Some rec" using c by simp
      then obtain b where b: "Round rec = k" "latestBeacon dm = Some b" "k \<le> Round b"
        using ent [of k rec] by blast
      then have "Round b < Round res" using new(2) by simp
      then show ?thesis using b by simp
    qed
    have maxc: "\<forall>k\<in>dom ?c. k \<le> Round res"
      using entc by blast
    have keep: "evict ?c (Round res) = Some res"
      by (rule evict_keeps_max [OF finc _ maxc]) simp
    have fine: "finite (dom (evict ?c))"
      using finc dom_evict_subset finite_subset by blast
    have ente: "Round rec = k \<and> k \<le> Round res" if e: "evict ?c k = Some rec" for k rec
      using entc evict_Some [OF e] by blast
    have seen': "Round r \<le> Round res" if s: "s \<in> set (srcs @ [src])" and r: "s 0 = Inr r" for s r
    proof (cases "s = src")
      case True
      then show ?thesis using r new(1) by simp
    next
      case False
      then have "s \<in> set srcs" using s by simp
      then obtain b where b: "latestBeacon dm = Some b" "Round r \<le> Round b"
        using seen r by blast
      then have "Round b < Round res" using new(2) by simp
      then show ?thesis using b by simp
    qed
    have "refresh_inv (srcs @ [src]) ?dm'"
    proof (rule refresh_invI)
      show "finite (dom (beaconCache ?dm'))" using fine by simp
    next
      fix k rec assume "beaconCache ?dm' k = Some rec"
      then have "evict ?c k = Some rec" by simp
      then show "Round rec = k \<and> (\<exists>b. latestBeacon ?dm' = Some b \<and> k \<le> Round b)"
        using ente by simp
    next
      fix b assume "latestBeacon ?dm' = Some b"
      then have "b = res" by simp
      then show "beaconCache ?dm' (Round b) = Some b \<and> (\<exists>s\<in>set (srcs @ [src]). s 0 = Inr b)"
        using keep new(1) by simp
    next
      fix s r assume "s \<in> set (srcs @ [src])" "s 0 = Inr r"
      then show "\<exists>b. latestBeacon ?dm' = Some b \<and> Round r \<le> Round b"
        using seen' by simp
    qed
    then show ?thesis unfolding new(3) .
  qed
qed

lemma refresh_inv_all: "refresh_inv srcs (refresh_all srcs newDrandManager)"
proof (induction srcs rule: rev_induct)
  case Nil
  show ?case by (simp add: refresh_inv_def refresh_all_def newDrandManager_def)
next
  case (snoc src srcs)
  then show ?case
    using refresh_inv_step [of srcs "refresh_all srcs newDrandManager" src]
    by (simp add: refresh_all_def)
qed

lemma dom_fetch_rounds:
  assumes "\<And>r. \<exists>res. src r = Inr res"
  shows "dom (beaconCache (fetch_rounds src rounds dm)) = dom (beaconCache dm) \<union> set rounds"
  unfolding fetch_rounds_def
proof (induction rounds arbitrary: dm)
  case Nil
  show ?case by simp
next
  case (Cons r rounds)
  obtain res where res: "src r = Inr res" using assms by blast
  have "dom (beaconCache (snd (GetRandomnessByRound src dm r))) = insert r (dom (beaconCache dm))"
    using res by (auto simp: GetRandomnessByRound_def split: option.splits)
  then show ?case
    using Cons.IH [of "snd (GetRandomnessByRound src dm r)"] by simp
qed

lemma distinct_rounds: "distinct (map word_of_nat [1..<102] :: uint64 list)"
proof -
  have "inj_on (word_of_nat :: nat \<Rightarrow> uint64) (set [1..<102])"
  proof (rule inj_onI)
    fix x y :: nat
    assume x: "x \<in> set [1..<102]" and y: "y \<in> set [1..<102]"
      and e: "(word_of_nat x :: uint64) = word_of_nat y"
    have "take_bit 64 x = x" "take_bit 64 y = y"
      using x y by (simp_all add: take_bit_nat_eq_self)
    then show "x = y"
      using e by (simp add: word_of_nat_eq_iff)
  qed
  then show ?thesis by (simp add: distinct_map)
qed

text \<open>
  The eviction of the refresh path brings the cache back to \<open>maxCacheSize\<close> records
  and deletes the lowest rounds, so refreshes alone never leave more than that.
\<close>

lemma dom_evict:
  "dom (evict cache) =
     dom cache - set (take (card (dom cache) - maxCacheSize) (sorted_list_of_set (dom cache)))"
proof -
  have "evict cache k =
          (if k \<in> set (take (card (dom cache) - maxCacheSize) (sorted_list_of_set (dom cache)))
           then None else cache k)" for k
    by (cases "card (dom cache) > maxCacheSize") (simp_all add: evict_apply)
  then show ?thesis by (auto simp: dom_def)
qed

lemma evict_bounded:
  assumes fin: "finite (dom cache)"
  shows "card (dom (evict cache)) \<le> maxCacheSize"
    and "\<forall>x\<in>dom cache - dom (evict cache). \<forall>y\<in>dom (evict cache). x < y"
proof -
  let ?xs = "sorted_list_of_set (dom cache)"
  let ?n = "card (dom cache) - maxCacheSize"
  have set: "set ?xs = dom cache" using fin by simp
  have sub: "set (take ?n ?xs) \<subseteq> dom cache"
    using set_take_subset [of ?n ?xs] set by simp
  have "distinct (take ?n ?xs)" by simp
  then have "card (set (take ?n ?xs)) = length (take ?n ?xs)"
    by (rule distinct_card)
  also have "\<dots> = ?n" by simp
  finally have c: "card (set (take ?n ?xs)) = ?n" .
  have "card (dom (evict cache)) = card (dom cache) - card (set (take ?n ?xs))"
    unfolding dom_evict using sub by (simp add: card_Diff_subset)
  then show "card (dom (evict cache)) \<le> maxCacheSize"
    using c by simp
  show "\<forall>x\<in>dom cache - dom (evict cache). \<forall>y\<in>dom (evict cache). x < y"
  proof (intro ballI)
    fix x y assume x: "x \<in> dom cache - dom (evict cache)" and y: "y \<in> dom (evict cache)"
    have "x \<in> set (take ?n ?xs)"
      using x unfolding dom_evict by blast
    moreover have "y \<in> set ?xs" "y \<notin> set (take ?n ?xs)"
      using y set unfolding dom_evict by blast+
    then have "y \<in> set (drop ?n ?xs)"
      by (metis Un_iff append_take_drop_id set_append)
    ultimately show "x < y"
      using take_lt_drop [OF strict_sorted_list_of_set] by blast
  qed
qed

lemma refresh_respects_capacity:
  "card (dom (beaconCache (refresh_all srcs newDrandManager))) \<le> maxCacheSize"
proof (induction srcs rule: rev_induct)
  case Nil
  show ?case by (simp add: refresh_all_def newDrandManager_def)
next
  case (snoc src srcs)
  let ?dm = "refresh_all srcs newDrandManager"
  have fin: "finite (dom (beaconCache ?dm))"
    using refresh_inv_all [of srcs] unfolding refresh_inv_def by (rule conjunct1)
  have step: "refresh_all (srcs @ [src]) newDrandManager = snd (fetchLatestBeacon src ?dm)"
    by (simp add: refresh_all_def)
  consider "snd (fetchLatestBeacon src ?dm) = ?dm"
    | res where "snd (fetchLatestBeacon src ?dm)
         = ?dm\<lparr>latestBeacon := Some res,
                beaconCache := evict ((beaconCache ?dm)(Round res \<mapsto> res))\<rparr>"
    using fetchLatestBeacon_cases [of src ?dm] by blast
  then show ?case
  proof cases
    case 1
    then show ?thesis using snoc.IH step by simp
  next
    case 2
    have "finite (dom ((beaconCache ?dm)(Round res \<mapsto> res)))" using fin by simp
    then have "card (dom (evict ((beaconCache ?dm)(Round res \<mapsto> res)))) \<le> maxCacheSize"
      by (rule evict_bounded)
    then show ?thesis using 2 step by simp
  qed
qed

text \<open>
  On a running manager whose loop does not take the stop signal, \<open>Close\<close> does not
  return.
\<close>

lemma Close_blocks: "isRunning dm \<Longrightarrow> Close False dm = None"
  by (simp add: Close_def StopBackgroundFetching_def)

section \<open>The claims\<close>

text \<open>
  Claim C1. For every deck and every randomness, \<open>shuffleDeck\<close> returns (it does not
  panic), and the deck it returns holds exactly the multiset of cards of its argument, in
  a sequence of the same length; a 52-card deck comes back as a permutation of its 52 cards.
\<close>
theorem shuffleDeck_permutation:
  "\<exists>out. shuffleDeck D R = Inr out \<and> mset out = mset D \<and> length out = length D"
  by (rule shuffleDeck_perm)

theorem shuffleDeck_permutation_witness:
  "\<exists>out. shuffleDeck initializeDeck [] = Inr out \<and> mset out = mset initializeDeck
     \<and> length out = 52"
  using shuffleDeck_permutation [of initializeDeck "[]"] by (simp add: length_initializeDeck)

text \<open>
  Claim C2. The card sequence \<open>shuffleDeck\<close> returns depends on the cards of the deck
  and on the randomness only, whatever the heap: two calls on the same cards and randomness
  return identical sequences. Two calls of \<open>GetShuffledDeckByRound\<close> with one round and
  one session identifier that obtain the same beacon randomness, on whatever managers and
  networks, return the same deck; and repeating the call on the manager the first call left
  behind returns the deck of the first call, whatever the network answers then.
\<close>
theorem shuffle_deterministic:
  "(valid_slice h1 d1 \<and> valid_slice h2 d2 \<and> read_slice h1 d1 = read_slice h2 d2 \<longrightarrow>
      result_cards (shuffleDeck_heap h1 d1 R) = result_cards (shuffleDeck_heap h2 d2 R))
   \<and> (fst (GetRandomnessByRound src1 dm1 round) = Inr rnd
        \<and> fst (GetRandomnessByRound src2 dm2 round) = Inr rnd \<longrightarrow>
      fst (GetShuffledDeckByRound src1 None dm1 round sid)
        = fst (GetShuffledDeckByRound src2 None dm2 round sid)
      \<and> (\<exists>deck. fst (GetShuffledDeckByRound src1 None dm1 round sid) = Inr deck))
   \<and> (fst (GetRandomnessByRound src1 dm1 round) = Inr rnd \<longrightarrow>
      fst (GetShuffledDeckByRound src2 None
             (snd (GetShuffledDeckByRound src1 None dm1 round sid)) round sid)
        = fst (GetShuffledDeckByRound src1 None dm1 round sid))"
proof (intro conjI impI)
  assume a: "valid_slice h1 d1 \<and> valid_slice h2 d2 \<and> read_slice h1 d1 = read_slice h2 d2"
  obtain cards where cards: "shuffleDeck (read_slice h1 d1) R = Inr cards"
      "length cards = length (read_slice h1 d1)"
    using shuffleDeck_perm [of "read_slice h1 d1" R] by blast
  from a have v1: "valid_slice h1 d1" and v2: "valid_slice h2 d2" by simp_all
  have l1: "length (read_slice h1 d1) = len d1"
    using v1 by (auto simp: read_slice_def valid_slice_def)
  have l2: "length (read_slice h2 d2) = len d2"
    using v2 by (auto simp: read_slice_def valid_slice_def)
  have c2: "shuffleDeck (read_slice h2 d2) R = Inr cards" "length cards = len d2"
    using a cards l2 by simp_all
  have "result_cards (shuffleDeck_heap h1 d1 R) = Inr cards"
    using cards l1 by (simp add: shuffleDeck_heap_refines [OF v1] result_cards_def read_slice_def)
  moreover have "result_cards (shuffleDeck_heap h2 d2 R) = Inr cards"
    using c2 by (simp add: shuffleDeck_heap_refines [OF v2] result_cards_def read_slice_def)
  ultimately show "result_cards (shuffleDeck_heap h1 d1 R) = result_cards (shuffleDeck_heap h2 d2 R)"
    by simp
next
  assume a: "fst (GetRandomnessByRound src1 dm1 round) = Inr rnd
        \<and> fst (GetRandomnessByRound src2 dm2 round) = Inr rnd"
  then show "fst (GetShuffledDeckByRound src1 None dm1 round sid)
        = fst (GetShuffledDeckByRound src2 None dm2 round sid)"
    by (simp add: GetShuffledDeckByRound_hit)
  obtain deck where "shuffleDeck initializeDeck (extendedRandomness rnd sid) = Inr deck"
    using shuffleDeck_perm [of initializeDeck "extendedRandomness rnd sid"] by blast
  then show "\<exists>deck. fst (GetShuffledDeckByRound src1 None dm1 round sid) = Inr deck"
    using a by (simp add: GetShuffledDeckByRound_hit lift_panic_def)
next
  assume a: "fst (GetRandomnessByRound src1 dm1 round) = Inr rnd"
  show "fst (GetShuffledDeckByRound src2 None
             (snd (GetShuffledDeckByRound src1 None dm1 round sid)) round sid)
        = fst (GetShuffledDeckByRound src1 None dm1 round sid)"
    using a GetRandomnessByRound_cached [OF a, of src2]
    by (simp add: GetShuffledDeckByRound_hit snd_GetShuffledDeckByRound)
qed

theorem shuffle_deterministic_witness:
  "(valid_slice [initializeDeck] \<lparr>arr = 0, off = 0, len = 52\<rparr>
      \<and> valid_slice [[], initializeDeck] \<lparr>arr = 1, off = 0, len = 52\<rparr>
      \<and> read_slice [initializeDeck] \<lparr>arr = 0, off = 0, len = 52\<rparr>
          = read_slice [[], initializeDeck] \<lparr>arr = 1, off = 0, len = 52\<rparr>)
   \<and> result_cards (shuffleDeck_heap [initializeDeck] \<lparr>arr = 0, off = 0, len = 52\<rparr> [9])
       = result_cards (shuffleDeck_heap [[], initializeDeck] \<lparr>arr = 1, off = 0, len = 52\<rparr> [9])
   \<and> fst (GetRandomnessByRound (\<lambda>r. Inr \<lparr>Round = r, Randomness = [7]\<rparr>) newDrandManager 5) = Inr [7]
   \<and> fst (GetRandomnessByRound (\<lambda>r. Inl ''down'')
           (newDrandManager\<lparr>beaconCache := [5 \<mapsto> \<lparr>Round = 5, Randomness = [7]\<rparr>]\<rparr>) 5) = Inr [7]
   \<and> fst (GetShuffledDeckByRound (\<lambda>r. Inr \<lparr>Round = r, Randomness = [7]\<rparr>) None newDrandManager 5 ''s'')
       = fst (GetShuffledDeckByRound (\<lambda>r. Inl ''down'') None
                (newDrandManager\<lparr>beaconCache := [5 \<mapsto> \<lparr>Round = 5, Randomness = [7]\<rparr>]\<rparr>) 5 ''s'')
   \<and> fst (GetShuffledDeckByRound (\<lambda>r. Inl ''down'') None
             (snd (GetShuffledDeckByRound (\<lambda>r. Inr \<lparr>Round = r, Randomness = [7]\<rparr>) None
                     newDrandManager 5 ''s'')) 5 ''s'')
       = fst (GetShuffledDeckByRound (\<lambda>r. Inr \<lparr>Round = r, Randomness = [7]\<rparr>) None newDrandManager 5 ''s'')"
proof -
  have a: "valid_slice [initializeDeck] \<lparr>arr = 0, off = 0, len = 52\<rparr>
      \<and> valid_slice [[], initializeDeck] \<lparr>arr = 1, off = 0, len = 52\<rparr>
      \<and> read_slice [initializeDeck] \<lparr>arr = 0, off = 0, len = 52\<rparr>
          = read_slice [[], initializeDeck] \<lparr>arr = 1, off = 0, len = 52\<rparr>"
    by (simp add: valid_slice_def read_slice_def length_initializeDeck)
  have b: "fst (GetRandomnessByRound (\<lambda>r. Inr \<lparr>Round = r, Randomness = [7]\<rparr>) newDrandManager 5)
             = Inr [7]"
    by (simp add: GetRandomnessByRound_def newDrandManager_def)
  have c: "fst (GetRandomnessByRound (\<lambda>r. Inl ''down'')
           (newDrandManager\<lparr>beaconCache := [5 \<mapsto> \<lparr>Round = 5, Randomness = [7]\<rparr>]\<rparr>) 5) = Inr [7]"
    by (simp add: GetRandomnessByRound_def newDrandManager_def)
  note t = shuffle_deterministic [where ?h1.0 = "[initializeDeck]"
      and ?d1.0 = "\<lparr>arr = 0, off = 0, len = 52\<rparr>" and ?h2.0 = "[[], initializeDeck]"
      and ?d2.0 = "\<lparr>arr = 1, off = 0, len = 52\<rparr>" and R = "[9]"
      and ?src1.0 = "\<lambda>r. Inr \<lparr>Round = r, Randomness = [7]\<rparr>" and ?dm1.0 = newDrandManager
      and round = 5 and rnd = "[7]" and ?src2.0 = "\<lambda>r. Inl ''down''"
      and ?dm2.0 = "newDrandManager\<lparr>beaconCache := [5 \<mapsto> \<lparr>Round = 5, Randomness = [7]\<rparr>]\<rparr>"
      and sid = "''s''"]
  show ?thesis
    using a b c t by blast
qed

text \<open>
  Claim C3. The extended randomness is the beacon randomness followed by the SHA-256 digest
  of the beacon randomness followed by the bytes of the session identifier; the digest has
  32 bytes, so the result has the length of the beacon randomness plus 32. Both
  \<open>GetShuffledDeckByRound\<close> and \<open>GetShuffledDeck\<close> shuffle the canonical deck with it.
\<close>
theorem extendedRandomness_digest:
  "extendedRandomness b sid = b @ sha256 (b @ bytes_of_string sid)
   \<and> length (sha256 (b @ bytes_of_string sid)) = 32
   \<and> length (extendedRandomness b sid) = length b + 32
   \<and> (fst (GetRandomnessByRound src dm round) = Inr b \<longrightarrow>
        fst (GetShuffledDeckByRound src None dm round sid)
          = lift_panic (shuffleDeck initializeDeck (b @ sha256 (b @ bytes_of_string sid))))
   \<and> (GetLatestRandomness dm = Inr (b, r) \<longrightarrow>
        GetShuffledDeck None dm sid
          = (case lift_panic (shuffleDeck initializeDeck (b @ sha256 (b @ bytes_of_string sid))) of
               Inl e \<Rightarrow> Inl e
             | Inr d \<Rightarrow> Inr (d, r)))"
  by (simp add: GetShuffledDeckByRound_hit extendedRandomness_eq length_sha256
      GetShuffledDeck_def)

theorem extendedRandomness_digest_witness:
  "fst (GetRandomnessByRound (\<lambda>r. Inr \<lparr>Round = r, Randomness = [7]\<rparr>) newDrandManager 5) = Inr [7]
   \<and> fst (GetShuffledDeckByRound (\<lambda>r. Inr \<lparr>Round = r, Randomness = [7]\<rparr>) None
           newDrandManager 5 ''s'')
       = lift_panic (shuffleDeck initializeDeck ([7] @ sha256 ([7] @ bytes_of_string ''s'')))
   \<and> GetLatestRandomness (newDrandManager\<lparr>latestBeacon := Some \<lparr>Round = 5, Randomness = [7]\<rparr>\<rparr>)
       = Inr ([7], 5)
   \<and> GetShuffledDeck None (newDrandManager\<lparr>latestBeacon := Some \<lparr>Round = 5, Randomness = [7]\<rparr>\<rparr>) ''s''
       = (case lift_panic (shuffleDeck initializeDeck ([7] @ sha256 ([7] @ bytes_of_string ''s''))) of
            Inl e \<Rightarrow> Inl e
          | Inr d \<Rightarrow> Inr (d, 5))"
proof -
  have a: "fst (GetRandomnessByRound (\<lambda>r. Inr \<lparr>Round = r, Randomness = [7]\<rparr>) newDrandManager 5)
             = Inr [7]"
    by (simp add: GetRandomnessByRound_def newDrandManager_def)
  have b: "GetLatestRandomness (newDrandManager\<lparr>latestBeacon := Some \<lparr>Round = 5, Randomness = [7]\<rparr>\<rparr>)
             = Inr ([7], 5)"
    by (simp add: GetLatestRandomness_def)
  note t = extendedRandomness_digest [where b = "[7]" and sid = "''s''" and round = 5 and r = 5
      and src = "\<lambda>r. Inr \<lparr>Round = r, Randomness = [7]\<rparr>" and dm = newDrandManager]
  note u = extendedRandomness_digest [where b = "[7]" and sid = "''s''" and r = 5
      and dm = "newDrandManager\<lparr>latestBeacon := Some \<lparr>Round = 5, Randomness = [7]\<rparr>\<rparr>"]
  show ?thesis
    using a b t u by blast
qed

text \<open>
  Claim C4 fails on the on-demand path. \<open>GetRandomnessByRound\<close> stores the record it
  fetched and evicts nothing, where \<open>fetchLatestBeacon\<close> evicts after every insertion:
  asked for the rounds 1 to 101 of a network that answers each, a new manager ends with 101
  cached records, one more than \<open>maxCacheSize\<close>.
\<close>
theorem cache_exceeds_capacity:
  "card (dom (beaconCache
      (fetch_rounds (\<lambda>r. Inr \<lparr>Round = r, Randomness = []\<rparr>) (map word_of_nat [1..<102])
         newDrandManager))) = 101
   \<and> maxCacheSize = 100"
proof -
  have "dom (beaconCache
      (fetch_rounds (\<lambda>r. Inr \<lparr>Round = r, Randomness = []\<rparr>) (map word_of_nat [1..<102])
         newDrandManager)) = set (map word_of_nat [1..<102] :: uint64 list)"
    by (subst dom_fetch_rounds) (simp_all add: newDrandManager_def)
  then show ?thesis
    using distinct_card [OF distinct_rounds] by (simp add: maxCacheSize_def)
qed

text \<open>
  Claim C5 as stated fails once an on-demand fetch stores a round newer than \<open>latest\<close>:
  after a refresh that delivers round 5 and a request for round 10, \<open>latest\<close> is still
  the record of round 5 while the mapping holds the record of round 10.
\<close>
theorem latest_not_max_counterexample:
  "latestBeacon
       (snd (GetRandomnessByRound (\<lambda>r. Inr \<lparr>Round = 10, Randomness = [2]\<rparr>)
               (snd (fetchLatestBeacon (\<lambda>r. Inr \<lparr>Round = 5, Randomness = [1]\<rparr>) newDrandManager))
               10))
     = Some \<lparr>Round = 5, Randomness = [1]\<rparr>
   \<and> beaconCache
       (snd (GetRandomnessByRound (\<lambda>r. Inr \<lparr>Round = 10, Randomness = [2]\<rparr>)
               (snd (fetchLatestBeacon (\<lambda>r. Inr \<lparr>Round = 5, Randomness = [1]\<rparr>) newDrandManager))
               10)) 10
     = Some \<lparr>Round = 10, Randomness = [2]\<rparr>
   \<and> \<not> latest_is_max
       (snd (GetRandomnessByRound (\<lambda>r. Inr \<lparr>Round = 10, Randomness = [2]\<rparr>)
               (snd (fetchLatestBeacon (\<lambda>r. Inr \<lparr>Round = 5, Randomness = [1]\<rparr>) newDrandManager))
               10))"
proof -
  let ?dm = "snd (GetRandomnessByRound (\<lambda>r. Inr \<lparr>Round = 10, Randomness = [2]\<rparr>)
               (snd (fetchLatestBeacon (\<lambda>r. Inr \<lparr>Round = 5, Randomness = [1]\<rparr>) newDrandManager))
               10)"
  have l: "latestBeacon ?dm = Some \<lparr>Round = 5, Randomness = [1]\<rparr>"
    by (simp add: GetRandomnessByRound_def fetchLatestBeacon_def newDrandManager_def evict_def
        maxCacheSize_def)
  have c: "beaconCache ?dm 10 = Some \<lparr>Round = 10, Randomness = [2]\<rparr>"
    by (simp add: GetRandomnessByRound_def fetchLatestBeacon_def newDrandManager_def evict_def
        maxCacheSize_def)
  have "\<not> latest_is_max ?dm"
  proof
    assume "latest_is_max ?dm"
    then have "\<forall>k rec. beaconCache ?dm k = Some rec \<longrightarrow> k \<le> 5 \<and> Round rec \<le> 5"
      unfolding latest_is_max_def l by simp
    then have "(10 :: uint64) \<le> 5" using c by blast
    then show False by simp
  qed
  then show ?thesis using l c by simp
qed

text \<open>
  Claim C5, as the code has it. After any sequence of background refreshes, with the rounds
  arriving in any order, \<open>latest\<close>, if present, is the record of the mapping with the
  greatest round; it is one of the records delivered and none delivered has a greater round,
  and \<open>GetLatestRandomness\<close> returns it. A refresh that delivers a round not greater
  than the one of \<open>latest\<close> changes nothing. An on-demand fetch by round never changes
  \<open>latest\<close>.
\<close>
theorem latest_tracks_refresh:
  "latest_is_max (refresh_all srcs newDrandManager)
   \<and> (\<forall>s\<in>set srcs. \<forall>res. s 0 = Inr res \<longrightarrow>
         (\<exists>b. latestBeacon (refresh_all srcs newDrandManager) = Some b \<and> Round res \<le> Round b))
   \<and> (\<forall>b. latestBeacon (refresh_all srcs newDrandManager) = Some b \<longrightarrow>
         GetLatestRandomness (refresh_all srcs newDrandManager) = Inr (Randomness b, Round b)
         \<and> (\<exists>s\<in>set srcs. s 0 = Inr b))
   \<and> (\<forall>res b. src 0 = Inr res \<and> latestBeacon dm = Some b \<and> Round res \<le> Round b \<longrightarrow>
         snd (fetchLatestBeacon src dm) = dm)
   \<and> latestBeacon (snd (GetRandomnessByRound src dm round)) = latestBeacon dm
   \<and> (\<forall>res. beaconCache dm round = None \<and> src round = Inr res \<longrightarrow>
         beaconCache (snd (GetRandomnessByRound src dm round)) round = Some res)"
proof -
  let ?dm = "refresh_all srcs newDrandManager"
  note inv = refresh_inv_all [of srcs, unfolded refresh_inv_def]
  have a: "latest_is_max ?dm"
  proof (cases "latestBeacon ?dm")
    case None
    then show ?thesis by (simp add: latest_is_max_def)
  next
    case (Some b)
    have "beaconCache ?dm (Round b) = Some b"
      using inv Some by blast
    moreover have "k \<le> Round b \<and> Round rec \<le> Round b" if "beaconCache ?dm k = Some rec" for k rec
      using inv Some that by fastforce
    ultimately show ?thesis
      using Some by (simp add: latest_is_max_def)
  qed
  have b: "\<forall>s\<in>set srcs. \<forall>res. s 0 = Inr res \<longrightarrow>
         (\<exists>b. latestBeacon ?dm = Some b \<and> Round res \<le> Round b)"
    using inv by blast
  have c: "\<forall>b. latestBeacon ?dm = Some b \<longrightarrow>
         GetLatestRandomness ?dm = Inr (Randomness b, Round b) \<and> (\<exists>s\<in>set srcs. s 0 = Inr b)"
    using inv by (simp add: GetLatestRandomness_def)
  have d: "\<forall>res b. src 0 = Inr res \<and> latestBeacon dm = Some b \<and> Round res \<le> Round b \<longrightarrow>
         snd (fetchLatestBeacon src dm) = dm"
    by (simp add: fetchLatestBeacon_def)
  have e: "latestBeacon (snd (GetRandomnessByRound src dm round)) = latestBeacon dm"
    by (simp add: GetRandomnessByRound_def split: option.splits sum.splits)
  have f: "\<forall>res. beaconCache dm round = None \<and> src round = Inr res \<longrightarrow>
         beaconCache (snd (GetRandomnessByRound src dm round)) round = Some res"
    by (simp add: GetRandomnessByRound_def)
  show ?thesis
    using a b c d e f by blast
qed

theorem latest_tracks_refresh_witness:
  "latest_is_max (refresh_all [\<lambda>r. Inr \<lparr>Round = 5, Randomness = [1]\<rparr>,
                               \<lambda>r. Inr \<lparr>Round = 3, Randomness = [2]\<rparr>] newDrandManager)
   \<and> latestBeacon (refresh_all [\<lambda>r. Inr \<lparr>Round = 5, Randomness = [1]\<rparr>,
                                 \<lambda>r. Inr \<lparr>Round = 3, Randomness = [2]\<rparr>] newDrandManager)
       = Some \<lparr>Round = 5, Randomness = [1]\<rparr>
   \<and> GetLatestRandomness (refresh_all [\<lambda>r. Inr \<lparr>Round = 5, Randomness = [1]\<rparr>,
                                       \<lambda>r. Inr \<lparr>Round = 3, Randomness = [2]\<rparr>] newDrandManager)
       = Inr ([1], 5)"
proof -
  let ?srcs = "[\<lambda>r. Inr \<lparr>Round = 5, Randomness = [1]\<rparr>,
                \<lambda>r :: uint64. Inr \<lparr>Round = 3, Randomness = [2]\<rparr>] :: source list"
  have l: "latestBeacon (refresh_all ?srcs newDrandManager) = Some \<lparr>Round = 5, Randomness = [1]\<rparr>"
    by (simp add: refresh_all_def fetchLatestBeacon_def newDrandManager_def)
  note t = latest_tracks_refresh [of ?srcs]
  show ?thesis
    using l t by simp
qed

text \<open>
  Claim C6. With fewer than eight bytes of randomness, \<open>shuffleDeck\<close> on the canonical
  deck runs its loop on the SHA-256 digest of the input, returns a permutation of the 52
  cards, and every slice expression \<open>randomness[pos:pos+8]\<close> of the loop, for
  \<open>i\<close> from 51 down to 1, stays inside the digest: no slice and no index leaves its range.
\<close>
theorem short_randomness_safe:
  assumes "length R < 8"
  shows "\<exists>out. shuffleDeck initializeDeck R = Inr out \<and> mset out = mset initializeDeck
           \<and> length out = 52
           \<and> shuffleDeck initializeDeck R = shuffle_loop 51 (sha256 R) initializeDeck
           \<and> (\<forall>i\<in>{1..51}.
                 let pos = i mod max_go 1 (int (length (sha256 R)) - 8)
                 in 0 \<le> pos \<and> pos + 8 \<le> int (length (sha256 R)))"
proof -
  obtain out where out: "shuffleDeck initializeDeck R = Inr out" "mset out = mset initializeDeck"
      "length out = length initializeDeck"
    using shuffleDeck_perm [of initializeDeck R] by blast
  have loop: "shuffleDeck initializeDeck R = shuffle_loop 51 (sha256 R) initializeDeck"
    using assms by (simp add: shuffleDeck_def Let_def rehash_eq length_initializeDeck)
  have acc: "\<forall>i\<in>{1..51}.
                 let pos = i mod max_go 1 (int (length (sha256 R)) - 8)
                 in 0 \<le> pos \<and> pos + 8 \<le> int (length (sha256 R))"
  proof -
    have m: "i mod 24 \<le> 24" for i :: int
      using pos_mod_bound [of 24 i] by linarith
    show ?thesis
      by (simp add: length_sha256 max_go_def Let_def m)
  qed
  show ?thesis
    using out loop acc by (simp add: length_initializeDeck)
qed

theorem short_randomness_safe_witness:
  "length [1, 2, 3 :: byte] < 8 \<and>
   (\<exists>out. shuffleDeck initializeDeck [1, 2, 3] = Inr out \<and> mset out = mset initializeDeck
           \<and> length out = 52
           \<and> shuffleDeck initializeDeck [1, 2, 3] = shuffle_loop 51 (sha256 [1, 2, 3]) initializeDeck
           \<and> (\<forall>i\<in>{1..51}.
                 let pos = i mod max_go 1 (int (length (sha256 [1, 2, 3])) - 8)
                 in 0 \<le> pos \<and> pos + 8 \<le> int (length (sha256 [1, 2, 3]))))"
proof -
  have h: "length [1, 2, 3 :: byte] < 8" by simp
  show ?thesis
    by (intro conjI h short_randomness_safe [OF h])
qed

text \<open>
  Claim C7 as stated fails: the manager keeps no record of having been closed. After one
  refresh that delivered round 7 and a \<open>Close\<close> that returned, on a manager whose loop
  was never started as on one whose loop took the stop signal,
  \<open>GetLatestRandomness\<close> answers with the cached record, and so does
  \<open>GetRandomnessByRound\<close> for round 7, even when the network then refuses every request.
\<close>
theorem closed_manager_answers_counterexample:
  "map_option GetLatestRandomness
     (Close False
        (snd (fetchLatestBeacon (\<lambda>r. Inr \<lparr>Round = 7, Randomness = [1]\<rparr>) newDrandManager)))
     = Some (Inr ([1], 7))
   \<and> map_option (\<lambda>dm. fst (GetRandomnessByRound (\<lambda>r. Inl ''closed'') dm 7))
       (Close False
          (snd (fetchLatestBeacon (\<lambda>r. Inr \<lparr>Round = 7, Randomness = [1]\<rparr>) newDrandManager)))
     = Some (Inr [1])
   \<and> map_option GetLatestRandomness
       (Close True
          (StartBackgroundFetching
             (snd (fetchLatestBeacon (\<lambda>r. Inr \<lparr>Round = 7, Randomness = [1]\<rparr>) newDrandManager))))
     = Some (Inr ([1], 7))
   \<and> map_option (\<lambda>dm. fst (GetRandomnessByRound (\<lambda>r. Inl ''closed'') dm 7))
       (Close True
          (StartBackgroundFetching
             (snd (fetchLatestBeacon (\<lambda>r. Inr \<lparr>Round = 7, Randomness = [1]\<rparr>) newDrandManager))))
     = Some (Inr [1])"
  by (simp add: Close_def StopBackgroundFetching_def StartBackgroundFetching_def
      GetLatestRandomness_def GetRandomnessByRound_def fetchLatestBeacon_def newDrandManager_def
      evict_def maxCacheSize_def)

text \<open>
  Claim C7, as the code has it. On a manager whose background loop is not running, and on a
  running one whose loop takes the stop signal, \<open>Close\<close> returns; the loop is then
  stopped and the client closed, and \<open>latest\<close> and the cache are as they were: after it
  \<open>GetLatestRandomness\<close> answers what it answered before, and
  \<open>GetRandomnessByRound\<close> answers what it would have answered before given the same
  answer of the network.
\<close>
theorem Close_keeps_cache:
  assumes "\<not> isRunning dm \<or> loopReceives"
  shows "\<exists>dm'. Close loopReceives dm = Some dm'
           \<and> latestBeacon dm' = latestBeacon dm
           \<and> beaconCache dm' = beaconCache dm
           \<and> \<not> isRunning dm'
           \<and> client dm' = (if client dm = NoClient then NoClient else ClientClosed)
           \<and> GetLatestRandomness dm' = GetLatestRandomness dm
           \<and> fst (GetRandomnessByRound src dm' round) = fst (GetRandomnessByRound src dm round)"
proof (cases "isRunning dm")
  case False
  then show ?thesis
    by (simp add: Close_def GetLatestRandomness_def GetRandomnessByRound_def
        split: option.splits sum.splits)
next
  case True
  then have "loopReceives" using assms by simp
  then show ?thesis
    using True
    by (simp add: Close_def StopBackgroundFetching_def GetLatestRandomness_def
        GetRandomnessByRound_def split: option.splits sum.splits)
qed

theorem Close_keeps_cache_witness:
  "isRunning (StartBackgroundFetching
      (snd (fetchLatestBeacon (\<lambda>r. Inr \<lparr>Round = 7, Randomness = [1]\<rparr>) newDrandManager)))
   \<and> map_option GetLatestRandomness
       (Close True
          (StartBackgroundFetching
             (snd (fetchLatestBeacon (\<lambda>r. Inr \<lparr>Round = 7, Randomness = [1]\<rparr>) newDrandManager))))
     = Some (GetLatestRandomness
          (StartBackgroundFetching
             (snd (fetchLatestBeacon (\<lambda>r. Inr \<lparr>Round = 7, Randomness = [1]\<rparr>) newDrandManager))))
   \<and> \<not> isRunning (snd (fetchLatestBeacon (\<lambda>r. Inr \<lparr>Round = 7, Randomness = [1]\<rparr>) newDrandManager))
   \<and> map_option GetLatestRandomness
       (Close False
          (snd (fetchLatestBeacon (\<lambda>r. Inr \<lparr>Round = 7, Randomness = [1]\<rparr>) newDrandManager)))
     = Some (GetLatestRandomness
          (snd (fetchLatestBeacon (\<lambda>r. Inr \<lparr>Round = 7, Randomness = [1]\<rparr>) newDrandManager)))"
proof -
  let ?dm0 = "snd (fetchLatestBeacon (\<lambda>r. Inr \<lparr>Round = 7, Randomness = [1]\<rparr>) newDrandManager)"
  let ?dmR = "StartBackgroundFetching ?dm0"
  have n: "\<not> isRunning ?dm0"
    by (simp add: fetchLatestBeacon_def newDrandManager_def)
  have r: "isRunning ?dmR"
    by (simp add: StartBackgroundFetching_def)
  have hr: "\<not> isRunning ?dmR \<or> True" by simp
  have hn: "\<not> isRunning ?dm0 \<or> False" using n by simp
  obtain d1 where d1: "Close True ?dmR = Some d1" "GetLatestRandomness d1 = GetLatestRandomness ?dmR"
    using Close_keeps_cache [OF hr] by blast
  obtain d2 where d2: "Close False ?dm0 = Some d2" "GetLatestRandomness d2 = GetLatestRandomness ?dm0"
    using Close_keeps_cache [OF hn] by blast
  show ?thesis
    using n r d1 d2 by simp
qed

text \<open>
  Claim C8 as stated fails on texts of fewer than three bytes: no suit name is a prefix of
  \<open>A\<close>, and the error is the one for a card text that is too short, not the one
  for an invalid suit.
\<close>
theorem short_text_counterexample:
  "StringToCard ''A'' = Inl (InvalidCardString ''A'')
   \<and> \<not> HasPrefix ''A'' suit_spade \<and> \<not> HasPrefix ''A'' suit_heart
   \<and> \<not> HasPrefix ''A'' suit_diamond \<and> \<not> HasPrefix ''A'' suit_club"
  by (simp add: StringToCard_def HasPrefix_def suit_defs)

text \<open>
  Claim C8, as the code has it. Parsing fails with the too-short error exactly when the text
  has fewer than three bytes; with the invalid-suit error exactly when it has at least three
  bytes and none of the four suit names is a prefix; with the invalid-rank error exactly when
  a suit name is a prefix and the rest is not one of the thirteen rank tokens. It succeeds
  exactly when the text is a suit name followed by a rank token, and then returns that card:
  no text is parsed to a default card.
\<close>
theorem StringToCard_failures:
  "((\<exists>x. StringToCard s = Inl (InvalidCardString x)) \<longleftrightarrow> length s < 3)
   \<and> ((\<exists>x. StringToCard s = Inl (InvalidSuit x)) \<longleftrightarrow>
        3 \<le> length s \<and> (\<forall>a\<in>set validSuits. \<not> HasPrefix s a))
   \<and> ((\<exists>x. StringToCard s = Inl (InvalidRank x)) \<longleftrightarrow>
        (\<exists>a\<in>set validSuits. HasPrefix s a \<and> drop (length a) s \<notin> set rank_values))
   \<and> (\<forall>c. StringToCard s = Inr c \<longleftrightarrow>
        Suit c \<in> set validSuits \<and> Value c \<in> set rank_values \<and> s = Suit c @ Value c)
   \<and> length validSuits = 4 \<and> card (set rank_values) = 13"
proof -
  have "length validSuits = 4" by (simp add: validSuits_def)
  moreover have "card (set rank_values) = 13" by (simp add: rank_values_def)
  ultimately show ?thesis
    using StringToCard_InvalidCardString_iff [of s] StringToCard_InvalidSuit_iff [of s]
      StringToCard_InvalidRank_iff [of s] StringToCard_Inr_iff [of s]
    by blast
qed

theorem StringToCard_failures_witness:
  "(\<exists>x. StringToCard ''wxyzA'' = Inl (InvalidSuit x))
   \<and> (\<exists>x. StringToCard (suit_heart @ ''11'') = Inl (InvalidRank x))
   \<and> StringToCard (suit_club @ ''10'') = Inr \<lparr>Suit = suit_club, Value = ''10''\<rparr>"
proof -
  have a: "3 \<le> length ''wxyzA'' \<and> (\<forall>a\<in>set validSuits. \<not> HasPrefix ''wxyzA'' a)"
    by (simp add: validSuits_def HasPrefix_def suit_defs)
  have b: "\<exists>a\<in>set validSuits. HasPrefix (suit_heart @ ''11'') a
             \<and> drop (length a) (suit_heart @ ''11'') \<notin> set rank_values"
    by (simp add: validSuits_def HasPrefix_def suit_defs rank_values_def)
  have c: "Suit \<lparr>Suit = suit_club, Value = ''10''\<rparr> \<in> set validSuits
       \<and> Value \<lparr>Suit = suit_club, Value = ''10''\<rparr> \<in> set rank_values
       \<and> suit_club @ ''10'' = Suit \<lparr>Suit = suit_club, Value = ''10''\<rparr> @ Value \<lparr>Suit = suit_club, Value = ''10''\<rparr>"
    by (simp add: validSuits_def rank_values_def)
  show ?thesis
    using a b c StringToCard_failures [of "''wxyzA''"] StringToCard_failures [of "suit_heart @ ''11''"]
      StringToCard_failures [of "suit_club @ ''10''"]
    by blast
qed

text \<open>
  Claim C9. \<open>shuffleDeck\<close> on a heap leaves every array that existed before the call as
  it was, so the cards read through the argument slice are the same afterwards; the slice
  it returns points into an array allocated by the call, and holds the shuffled cards.
\<close>
theorem shuffleDeck_input_unchanged:
  assumes "valid_slice h deck"
  shows "\<exists>h' out. shuffleDeck_heap h deck R = Inr (h', out)
           \<and> read_slice h' deck = read_slice h deck
           \<and> (\<forall>a<length h. h' ! a = h ! a)
           \<and> length h' = Suc (length h) \<and> arr out = length h
           \<and> shuffleDeck (read_slice h deck) R = Inr (read_slice h' out)"
proof -
  obtain cards where cards: "shuffleDeck (read_slice h deck) R = Inr cards"
      "length cards = length (read_slice h deck)"
    using shuffleDeck_perm [of "read_slice h deck" R] by blast
  let ?out = "\<lparr>arr = length h, off = 0, len = len deck\<rparr>"
  have lr: "length (read_slice h deck) = len deck"
    using assms by (auto simp: read_slice_def valid_slice_def)
  have run: "shuffleDeck_heap h deck R = Inr (h @ [cards], ?out)"
    using shuffleDeck_heap_refines [OF assms, of R] cards by simp
  have keep: "read_slice (h @ [cards]) deck = read_slice h deck"
    using assms by (simp add: read_slice_def valid_slice_def nth_append)
  have frame: "\<forall>a<length h. (h @ [cards]) ! a = h ! a"
    by (simp add: nth_append)
  have res: "read_slice (h @ [cards]) ?out = cards"
    using cards lr by (simp add: read_slice_def)
  show ?thesis
    using run keep frame res cards by simp
qed

theorem shuffleDeck_input_unchanged_witness:
  "valid_slice [initializeDeck] \<lparr>arr = 0, off = 0, len = 52\<rparr> \<and>
   (\<exists>h' out. shuffleDeck_heap [initializeDeck] \<lparr>arr = 0, off = 0, len = 52\<rparr> [] = Inr (h', out)
      \<and> read_slice h' \<lparr>arr = 0, off = 0, len = 52\<rparr> = initializeDeck
      \<and> arr out = 1)"
proof -
  have v: "valid_slice [initializeDeck] \<lparr>arr = 0, off = 0, len = 52\<rparr>"
    by (simp add: valid_slice_def length_initializeDeck)
  have r: "read_slice [initializeDeck] \<lparr>arr = 0, off = 0, len = 52\<rparr> = initializeDeck"
    by (simp add: read_slice_def length_initializeDeck)
  show ?thesis
    using v shuffleDeck_input_unchanged [OF v, of "[]"] unfolding r by auto
qed

text \<open>
  Claim C10. For every card of the canonical deck, \<open>StringToCard\<close> applied to the text
  \<open>CardToString\<close> gives for it succeeds and returns the card.
\<close>
theorem card_text_roundtrip:
  "\<forall>c\<in>set initializeDeck. StringToCard (CardToString c) = Inr c"
proof
  fix c assume "c \<in> set initializeDeck"
  then have "Suit c \<in> set validSuits \<and> Value c \<in> set rank_values"
    by (auto simp: initializeDeck_def suits_def validSuits_def rank_values_def)
  then show "StringToCard (CardToString c) = Inr c"
    by (simp add: StringToCard_Inr_iff CardToString_def)
qed

theorem card_text_roundtrip_witness:
  "\<lparr>Suit = suit_heart, Value = ''10''\<rparr> \<in> set initializeDeck
   \<and> StringToCard (CardToString \<lparr>Suit = suit_heart, Value = ''10''\<rparr>)
       = Inr \<lparr>Suit = suit_heart, Value = ''10''\<rparr>"
proof -
  have m: "\<lparr>Suit = suit_heart, Value = ''10''\<rparr> \<in> set initializeDeck"
    by (simp add: initializeDeck_def suits_def rank_values_def)
  show ?thesis
    using m card_text_roundtrip by blast
qed

end
